theory Spec2Isabelle
  imports Main "HOL-Library.Word"
begin

unbundle bit_operations_syntax

section \<open>HOFFMAN: a chess endgame tablebase builder (hoffman.c)\<close>

text \<open>
  Machine types of the source: \<open>int64\<close> is \<open>unsigned long long\<close>, \<open>int32\<close> is
  \<open>unsigned int\<close>, the fields of an entry are \<open>unsigned char\<close>. A C \<open>int\<close> or
  \<open>short\<close> whose value stays far from its bounds (square numbers, move counts, mate-in
  counts) is an \<open>int\<close>; storing it in an \<open>unsigned char\<close> keeps its low eight bits
  (\<open>word_of_int\<close>), comparing it with an \<open>unsigned char\<close> promotes the byte
  (\<open>uint\<close>).
\<close>

type_synonym int64 = "64 word"
type_synonym int32 = "32 word"
type_synonym uchar = "8 word"

subsection \<open>Global constants\<close>

definition MAX_MOBILES :: nat where "MAX_MOBILES = 8"
definition STALEMATE_COUNT :: int where "STALEMATE_COUNT = 100"
definition NUM_SQUARES :: nat where "NUM_SQUARES = 64"
definition NUM_MOVEMENTS :: nat where "NUM_MOVEMENTS = 7"

text \<open>Positions of the kings in the mobile piece list.\<close>

definition WHITE_KING :: nat where "WHITE_KING = 0"
definition BLACK_KING :: nat where "BLACK_KING = 1"

text \<open>The piece kinds \<open>KING = 0\<close> ... \<open>PAWNep = 6\<close> and the colours \<open>WHITE = 0\<close>,
  \<open>BLACK = 1\<close>; the colour is also the side to move.\<close>

datatype piece_t = KING | QUEEN | ROOK | BISHOP | KNIGHT | PAWN | PAWNep

datatype color_t = WHITE | BLACK

definition allones_bitvector :: int64 where
  "allones_bitvector = 0xffffffffffffffff"

text \<open>\<open>bitvector[square] = 1ULL << square\<close>, filled in by \<open>init_movements\<close>.\<close>

definition bitvector :: "nat \<Rightarrow> int64" where
  "bitvector square = push_bit square 1"

subsection \<open>Tablebase structure\<close>

definition ILLEGAL_POSITION :: uchar where "ILLEGAL_POSITION = 255"
definition PTM_WINS_PROPAGATION_DONE :: uchar where "PTM_WINS_PROPAGATION_DONE = 254"
definition PNTM_WINS_PROPAGATION_DONE :: uchar where "PNTM_WINS_PROPAGATION_DONE = 253"
definition PTM_WINS_PROPAGATION_NEEDED :: uchar where "PTM_WINS_PROPAGATION_NEEDED = 252"
definition PNTM_WINS_PROPAGATION_NEEDED :: uchar where "PNTM_WINS_PROPAGATION_NEEDED = 0"
definition MAX_MOVECNT :: uchar where "MAX_MOVECNT = 251"

record fourbyte_entry =
  movecnt :: uchar
  mate_in_cnt :: uchar
  stalemate_cnt :: uchar
  reserved :: uchar

text \<open>
  The arrays \<open>mobile_piece_type\<close> and \<open>mobile_piece_color\<close> have \<open>MAX_MOBILES\<close> slots,
  of which the first \<open>num_mobiles\<close> are read. \<open>entries\<close> points to the entry array;
  it is a function from the index, so a write is a function update.
\<close>

record tablebase =
  num_mobiles :: nat
  mobile_piece_type :: "piece_t list"
  mobile_piece_color :: "color_t list"
  entries :: "int32 \<Rightarrow> fourbyte_entry"

record position =
  board_vector :: int64
  white_vector :: int64
  black_vector :: int64
  side_to_move :: color_t
  mobile_piece_position :: "int list"

text \<open>The message lines written to \<open>stderr\<close>, in order.\<close>

type_synonym diagnostics = "string list"

subsection \<open>Operations on one entry\<close>

definition WHITE_TO_MOVE :: "int32 \<Rightarrow> bool" where
  "WHITE_TO_MOVE index = (index AND 1 = 0)"

definition BLACK_TO_MOVE :: "int32 \<Rightarrow> bool" where
  "BLACK_TO_MOVE index = (index AND 1 = 1)"

definition set_entry :: "tablebase \<Rightarrow> int32 \<Rightarrow> fourbyte_entry \<Rightarrow> tablebase" where
  "set_entry tb index e = tb\<lparr>entries := (entries tb)(index := e)\<rparr>"

definition does_white_win :: "tablebase \<Rightarrow> int32 \<Rightarrow> bool" where
  "does_white_win tb index =
     (if WHITE_TO_MOVE index
      then movecnt (entries tb index) = PTM_WINS_PROPAGATION_NEEDED
         \<or> movecnt (entries tb index) = PTM_WINS_PROPAGATION_DONE
      else movecnt (entries tb index) = PNTM_WINS_PROPAGATION_NEEDED
         \<or> movecnt (entries tb index) = PNTM_WINS_PROPAGATION_DONE)"

definition does_black_win :: "tablebase \<Rightarrow> int32 \<Rightarrow> bool" where
  "does_black_win tb index =
     (if BLACK_TO_MOVE index
      then movecnt (entries tb index) = PTM_WINS_PROPAGATION_NEEDED
         \<or> movecnt (entries tb index) = PTM_WINS_PROPAGATION_DONE
      else movecnt (entries tb index) = PNTM_WINS_PROPAGATION_NEEDED
         \<or> movecnt (entries tb index) = PNTM_WINS_PROPAGATION_DONE)"

definition needs_propagation :: "tablebase \<Rightarrow> int32 \<Rightarrow> bool" where
  "needs_propagation tb index =
     (movecnt (entries tb index) = PTM_WINS_PROPAGATION_NEEDED
      \<or> movecnt (entries tb index) = PNTM_WINS_PROPAGATION_NEEDED)"

definition mark_propagated :: "tablebase \<Rightarrow> int32 \<Rightarrow> tablebase \<times> diagnostics" where
  "mark_propagated tb index =
     (if movecnt (entries tb index) = PTM_WINS_PROPAGATION_NEEDED
      then (set_entry tb index ((entries tb index)\<lparr>movecnt := PTM_WINS_PROPAGATION_DONE\<rparr>), [])
      else if movecnt (entries tb index) = PNTM_WINS_PROPAGATION_NEEDED
      then (set_entry tb index ((entries tb index)\<lparr>movecnt := PNTM_WINS_PROPAGATION_DONE\<rparr>), [])
      else (tb, [''Propagation attempt on a completed or unresolved position'']))"

text \<open>\<open>get_mate_in_count\<close> returns -1 if there is no mate from this position.\<close>

definition get_mate_in_count :: "tablebase \<Rightarrow> int32 \<Rightarrow> int" where
  "get_mate_in_count tb index =
     (if 1 \<le> movecnt (entries tb index) \<and> movecnt (entries tb index) \<le> MAX_MOVECNT
      then - 1
      else uint (mate_in_cnt (entries tb index)))"

definition get_stalemate_count :: "tablebase \<Rightarrow> int32 \<Rightarrow> int" where
  "get_stalemate_count tb index = uint (stalemate_cnt (entries tb index))"

text \<open>The three assignments that record a win in an entry.\<close>

definition record_win :: "uchar \<Rightarrow> int \<Rightarrow> int \<Rightarrow> fourbyte_entry \<Rightarrow> fourbyte_entry" where
  "record_win state mate_in_count stalemate_count e =
     e\<lparr>movecnt := state,
       mate_in_cnt := word_of_int mate_in_count,
       stalemate_cnt := word_of_int stalemate_count\<rparr>"

definition white_wins :: "tablebase \<Rightarrow> int32 \<Rightarrow> int \<Rightarrow> int \<Rightarrow> tablebase \<times> diagnostics" where
  "white_wins tb index mate_in_count stalemate_count =
     (if WHITE_TO_MOVE index then
        if movecnt (entries tb index) = PTM_WINS_PROPAGATION_NEEDED
           \<or> movecnt (entries tb index) = PTM_WINS_PROPAGATION_DONE
        then (tb, if mate_in_count < uint (mate_in_cnt (entries tb index))
                  then [''Mate in count dropped in white_wins!?''] else [])
        else if movecnt (entries tb index) = PNTM_WINS_PROPAGATION_NEEDED
           \<or> movecnt (entries tb index) = PNTM_WINS_PROPAGATION_DONE
        then (tb, [''White_wins in a position where black already won?!''])
        else (set_entry tb index
                (record_win PTM_WINS_PROPAGATION_NEEDED mate_in_count stalemate_count
                   (entries tb index)), [])
      else
        if movecnt (entries tb index) = PNTM_WINS_PROPAGATION_NEEDED
           \<or> movecnt (entries tb index) = PNTM_WINS_PROPAGATION_DONE
        then (tb, ''White_wins in a black to move position...''
                  # (if mate_in_count < uint (mate_in_cnt (entries tb index))
                     then [''Mate in count dropped in white_wins!?''] else []))
        else if movecnt (entries tb index) = PTM_WINS_PROPAGATION_NEEDED
           \<or> movecnt (entries tb index) = PTM_WINS_PROPAGATION_DONE
        then (tb, [''White_wins in a black to move position...'',
                   ''White_wins in a position where black already won?!''])
        else (set_entry tb index
                (record_win PNTM_WINS_PROPAGATION_NEEDED mate_in_count stalemate_count
                   (entries tb index)),
              [''White_wins in a black to move position...'']))"

definition black_wins :: "tablebase \<Rightarrow> int32 \<Rightarrow> int \<Rightarrow> int \<Rightarrow> tablebase \<times> diagnostics" where
  "black_wins tb index mate_in_count stalemate_count =
     (if BLACK_TO_MOVE index then
        if movecnt (entries tb index) = PTM_WINS_PROPAGATION_NEEDED
           \<or> movecnt (entries tb index) = PTM_WINS_PROPAGATION_DONE
        then (tb, if mate_in_count < uint (mate_in_cnt (entries tb index))
                  then [''Mate in count dropped in black_wins!?''] else [])
        else if movecnt (entries tb index) = PNTM_WINS_PROPAGATION_NEEDED
           \<or> movecnt (entries tb index) = PNTM_WINS_PROPAGATION_DONE
        then (tb, [''Black_wins in a position where white already won?!''])
        else (set_entry tb index
                (record_win PTM_WINS_PROPAGATION_NEEDED mate_in_count stalemate_count
                   (entries tb index)), [])
      else
        if movecnt (entries tb index) = PNTM_WINS_PROPAGATION_NEEDED
           \<or> movecnt (entries tb index) = PNTM_WINS_PROPAGATION_DONE
        then (tb, ''Black_wins in a white to move position...''
                  # (if mate_in_count < uint (mate_in_cnt (entries tb index))
                     then [''Mate in count dropped in black_wins!?''] else []))
        else if movecnt (entries tb index) = PTM_WINS_PROPAGATION_NEEDED
           \<or> movecnt (entries tb index) = PTM_WINS_PROPAGATION_DONE
        then (tb, [''Black_wins in a white to move position...'',
                   ''Black_wins in a position where white already won?!''])
        else (set_entry tb index
                (record_win PNTM_WINS_PROPAGATION_NEEDED mate_in_count stalemate_count
                   (entries tb index)),
              [''Black_wins in a white to move position...'']))"

text \<open>
  The last branch of the two \<open>add_one\<close> functions: the counter is decremented, the
  mate-in count is assigned (a drop below a stored count other than 255 is only
  reported), and the stalemate count is lowered when the new one is smaller.
\<close>

definition count_one_win :: "int \<Rightarrow> int \<Rightarrow> fourbyte_entry \<Rightarrow> fourbyte_entry" where
  "count_one_win mate_in_count stalemate_count e =
     (let e1 = e\<lparr>movecnt := movecnt e - 1\<rparr>;
          e2 = e1\<lparr>mate_in_cnt := word_of_int mate_in_count\<rparr>
      in if stalemate_count < uint (stalemate_cnt e2)
         then e2\<lparr>stalemate_cnt := word_of_int stalemate_count\<rparr>
         else e2)"

definition add_one_to_white_wins ::
  "tablebase \<Rightarrow> int32 \<Rightarrow> int \<Rightarrow> int \<Rightarrow> tablebase \<times> diagnostics" where
  "add_one_to_white_wins tb index mate_in_count stalemate_count =
     (if WHITE_TO_MOVE index
      then (tb, [''add_one_to_white_wins in a white to move position''])
      else if movecnt (entries tb index) = PTM_WINS_PROPAGATION_NEEDED
            \<or> movecnt (entries tb index) = PTM_WINS_PROPAGATION_DONE
      then (tb, [])
      else if movecnt (entries tb index) = 0 \<or> movecnt (entries tb index) > MAX_MOVECNT
      then (tb, [''add_one_to_white_wins in an already won position!?''])
      else (set_entry tb index (count_one_win mate_in_count stalemate_count (entries tb index)),
            if mate_in_count < uint (mate_in_cnt (entries tb index))
               \<and> mate_in_cnt (entries tb index) \<noteq> 255
            then [''mate-in count dropped in add_one_to_white_wins?''] else []))"

definition add_one_to_black_wins ::
  "tablebase \<Rightarrow> int32 \<Rightarrow> int \<Rightarrow> int \<Rightarrow> tablebase \<times> diagnostics" where
  "add_one_to_black_wins tb index mate_in_count stalemate_count =
     (if BLACK_TO_MOVE index
      then (tb, [''add_one_to_black_wins in a black to move position''])
      else if movecnt (entries tb index) = PTM_WINS_PROPAGATION_NEEDED
            \<or> movecnt (entries tb index) = PTM_WINS_PROPAGATION_DONE
      then (tb, [])
      else if movecnt (entries tb index) = 0 \<or> movecnt (entries tb index) > MAX_MOVECNT
      then (tb, [''add_one_to_black_wins in an already won position!?''])
      else (set_entry tb index (count_one_win mate_in_count stalemate_count (entries tb index)),
            if mate_in_count < uint (mate_in_cnt (entries tb index))
               \<and> mate_in_cnt (entries tb index) \<noteq> 255
            then [''mate-in count dropped in add_one_to_black_wins?''] else []))"

subsection \<open>Simple initialization for a K+Q vs K endgame\<close>

text \<open>
  \<open>calloc\<close> gives \<open>2*64*64*64\<close> zero entries. Only the first three slots of the
  piece arrays are assigned (the others are never read, as \<open>num_mobiles = 3\<close>).
\<close>

definition zero_entry :: fourbyte_entry where
  "zero_entry = \<lparr>movecnt = 0, mate_in_cnt = 0, stalemate_cnt = 0, reserved = 0\<rparr>"

definition create_tablebase :: tablebase where
  "create_tablebase =
     \<lparr>num_mobiles = 3,
      mobile_piece_type = [KING, KING, QUEEN],
      mobile_piece_color = [WHITE, BLACK, WHITE],
      entries = (\<lambda>index. zero_entry)\<rparr>"

subsection \<open>Index and position\<close>

text \<open>
  \<open>(2<<(6*tb->num_mobiles)) - 1\<close>, returned as an \<open>int32\<close>. The arithmetic is that of a
  32-bit word: bits shifted beyond bit 31 are lost (in C the shift is defined while the
  result fits an \<open>int\<close>).
\<close>

definition max_index :: "tablebase \<Rightarrow> int32" where
  "max_index tb = push_bit (6 * num_mobiles tb) 2 - 1"

text \<open>The number of a colour, as stored in \<open>side_to_move\<close>, and back.\<close>

definition color_number :: "color_t \<Rightarrow> int32" where
  "color_number c = (case c of WHITE \<Rightarrow> 0 | BLACK \<Rightarrow> 1)"

definition color_of :: "int32 \<Rightarrow> color_t" where
  "color_of n = (if n = 0 then WHITE else BLACK)"

text \<open>The loop of \<open>position_to_index\<close>: \<open>index |= pos->mobile_piece_position[piece] <<
  shift_count; shift_count += 6\<close>.\<close>

function position_to_index_loop ::
  "tablebase \<Rightarrow> position \<Rightarrow> nat \<Rightarrow> nat \<Rightarrow> int32 \<Rightarrow> int32" where
  "position_to_index_loop tb pos piece shift_count index =
     (if piece < num_mobiles tb
      then position_to_index_loop tb pos (piece + 1) (shift_count + 6)
             (index OR push_bit shift_count (word_of_int (mobile_piece_position pos ! piece)))
      else index)"
  by pat_completeness auto
termination
  by (relation "measure (\<lambda>(tb, pos, piece, shift_count, index). num_mobiles tb - piece)") auto

declare position_to_index_loop.simps [simp del]

definition position_to_index :: "tablebase \<Rightarrow> position \<Rightarrow> int32" where
  "position_to_index tb pos =
     position_to_index_loop tb pos 0 1 (color_number (side_to_move pos))"

text \<open>\<open>bzero(p, sizeof(position))\<close>.\<close>

definition zero_position :: position where
  "zero_position =
     \<lparr>board_vector = 0, white_vector = 0, black_vector = 0, side_to_move = WHITE,
      mobile_piece_position = replicate MAX_MOBILES 0\<rparr>"

text \<open>
  The loop of \<open>index_to_position\<close>. It returns 0 as soon as a piece lands on an occupied
  square; the position is then filled in up to and including that piece's square, and
  callers that ignore the result go on with it.
\<close>

function index_to_position_loop ::
  "tablebase \<Rightarrow> nat \<Rightarrow> int32 \<Rightarrow> position \<Rightarrow> bool \<times> position" where
  "index_to_position_loop tb piece index p =
     (if piece < num_mobiles tb then
        let square = unat (index AND 63);
            p1 = p\<lparr>mobile_piece_position := (mobile_piece_position p)[piece := int square]\<rparr>
        in if board_vector p1 AND bitvector square \<noteq> 0 then (False, p1)
           else
             let p2 = p1\<lparr>board_vector := board_vector p1 OR bitvector square\<rparr>;
                 p3 = (if mobile_piece_color tb ! piece = WHITE
                       then p2\<lparr>white_vector := white_vector p2 OR bitvector square\<rparr>
                       else p2\<lparr>black_vector := black_vector p2 OR bitvector square\<rparr>)
             in index_to_position_loop tb (piece + 1) (drop_bit 6 index) p3
      else (True, p))"
  by pat_completeness auto
termination
  by (relation "measure (\<lambda>(tb, piece, index, p). num_mobiles tb - piece)") auto

declare index_to_position_loop.simps [simp del]

definition index_to_position :: "tablebase \<Rightarrow> int32 \<Rightarrow> bool \<times> position" where
  "index_to_position tb index =
     index_to_position_loop tb 0 (drop_bit 1 index)
       (zero_position\<lparr>side_to_move := color_of (index AND 1)\<rparr>)"

subsection \<open>Movement vectors\<close>

record movement =
  vector :: int64
  square :: int

text \<open>
  \<open>movements[NUM_PIECES][NUM_SQUARES][NUM_DIR][NUM_MOVEMENTS+1]\<close> is a global array, so
  every slot that \<open>init_movements\<close> does not write holds zeros. A row is the list of the
  \<open>NUM_MOVEMENTS+1\<close> movements of one piece kind, square and direction.
\<close>

definition zero_movement :: movement where
  "zero_movement = \<lparr>vector = 0, square = 0\<rparr>"

definition zero_row :: "movement list" where
  "zero_row = replicate (NUM_MOVEMENTS + 1) zero_movement"

definition number_of_movement_directions :: "piece_t \<Rightarrow> nat" where
  "number_of_movement_directions piece =
     (case piece of KING \<Rightarrow> 8 | QUEEN \<Rightarrow> 8 | ROOK \<Rightarrow> 4 | BISHOP \<Rightarrow> 4 | KNIGHT \<Rightarrow> 8
      | PAWN \<Rightarrow> 1 | PAWNep \<Rightarrow> 1)"

definition maximum_movements_in_one_direction :: "piece_t \<Rightarrow> nat" where
  "maximum_movements_in_one_direction piece =
     (case piece of KING \<Rightarrow> 1 | QUEEN \<Rightarrow> 7 | ROOK \<Rightarrow> 7 | BISHOP \<Rightarrow> 7 | KNIGHT \<Rightarrow> 1
      | PAWN \<Rightarrow> 2 | PAWNep \<Rightarrow> 1)"

datatype movementdir_t =
  RIGHT | LEFT | UP | DOWN | DIAG_UL | DIAG_UR | DIAG_DL | DIAG_DR
  | KNIGHTmove | PAWNmove | PAWN2move

text \<open>The table \<open>movementdir[7][8]\<close>; the initialisers that the source leaves out are 0,
  which is \<open>RIGHT\<close>.\<close>

definition movementdir :: "piece_t \<Rightarrow> nat \<Rightarrow> movementdir_t" where
  "movementdir piece dir =
     (case piece of
        KING \<Rightarrow> [RIGHT, LEFT, UP, DOWN, DIAG_UL, DIAG_UR, DIAG_DL, DIAG_DR]
      | QUEEN \<Rightarrow> [RIGHT, LEFT, UP, DOWN, DIAG_UL, DIAG_UR, DIAG_DL, DIAG_DR]
      | ROOK \<Rightarrow> [RIGHT, LEFT, UP, DOWN, RIGHT, RIGHT, RIGHT, RIGHT]
      | BISHOP \<Rightarrow> [DIAG_UL, DIAG_UR, DIAG_DL, DIAG_DR, RIGHT, RIGHT, RIGHT, RIGHT]
      | KNIGHT \<Rightarrow> [KNIGHTmove, KNIGHTmove, KNIGHTmove, KNIGHTmove,
                   KNIGHTmove, KNIGHTmove, KNIGHTmove, KNIGHTmove]
      | PAWN \<Rightarrow> [PAWNmove, PAWN2move, RIGHT, RIGHT, RIGHT, RIGHT, RIGHT, RIGHT]
      | PAWNep \<Rightarrow> [PAWNmove, RIGHT, RIGHT, RIGHT, RIGHT, RIGHT, RIGHT, RIGHT]) ! dir"

definition RIGHT_MOVEMENT_POSSIBLE :: "int \<Rightarrow> bool" where
  "RIGHT_MOVEMENT_POSSIBLE current_square = (current_square mod 8 < 7)"
definition RIGHT2_MOVEMENT_POSSIBLE :: "int \<Rightarrow> bool" where
  "RIGHT2_MOVEMENT_POSSIBLE current_square = (current_square mod 8 < 6)"
definition LEFT_MOVEMENT_POSSIBLE :: "int \<Rightarrow> bool" where
  "LEFT_MOVEMENT_POSSIBLE current_square = (current_square mod 8 > 0)"
definition LEFT2_MOVEMENT_POSSIBLE :: "int \<Rightarrow> bool" where
  "LEFT2_MOVEMENT_POSSIBLE current_square = (current_square mod 8 > 1)"
definition UP_MOVEMENT_POSSIBLE :: "int \<Rightarrow> bool" where
  "UP_MOVEMENT_POSSIBLE current_square = (current_square < 56)"
definition UP2_MOVEMENT_POSSIBLE :: "int \<Rightarrow> bool" where
  "UP2_MOVEMENT_POSSIBLE current_square = (current_square < 48)"
definition DOWN_MOVEMENT_POSSIBLE :: "int \<Rightarrow> bool" where
  "DOWN_MOVEMENT_POSSIBLE current_square = (current_square > 7)"
definition DOWN2_MOVEMENT_POSSIBLE :: "int \<Rightarrow> bool" where
  "DOWN2_MOVEMENT_POSSIBLE current_square = (current_square > 15)"

text \<open>The two pairs of assignments that fill a slot: a movement to a square, and the end
  of the list.\<close>

definition movement_to :: "int \<Rightarrow> movement" where
  "movement_to sq = \<lparr>vector = bitvector (nat sq), square = sq\<rparr>"

definition end_of_list :: movement where
  "end_of_list = \<lparr>vector = allones_bitvector, square = - 1\<rparr>"

text \<open>A sliding case of the \<open>switch\<close>: if the edge test holds, \<open>current_square\<close> advances
  and slot \<open>mvmt\<close> gets the new square; otherwise slot \<open>mvmt\<close> gets the end of the list.\<close>

definition slide :: "bool \<Rightarrow> int \<Rightarrow> nat \<Rightarrow> int \<times> movement list \<Rightarrow> int \<times> movement list" where
  "slide possible delta mvmt st =
     (case st of (current_square, row) \<Rightarrow>
        if possible
        then (current_square + delta, row[mvmt := movement_to (current_square + delta)])
        else (current_square, row[mvmt := end_of_list]))"

text \<open>A knight case: slots 0 and 1 are written if the jump stays on the board, slot 0
  otherwise.\<close>

definition jump :: "bool \<Rightarrow> int \<Rightarrow> movement list \<Rightarrow> movement list" where
  "jump possible target row =
     (if possible then row[0 := movement_to target, 1 := end_of_list]
      else row[0 := end_of_list])"

fun movement_case ::
  "movementdir_t \<Rightarrow> int \<Rightarrow> nat \<Rightarrow> nat \<Rightarrow> int \<times> movement list \<Rightarrow> int \<times> movement list" where
  "movement_case RIGHT sq dir mvmt (cs, row) =
     slide (RIGHT_MOVEMENT_POSSIBLE cs) 1 mvmt (cs, row)"
| "movement_case LEFT sq dir mvmt (cs, row) =
     slide (LEFT_MOVEMENT_POSSIBLE cs) (- 1) mvmt (cs, row)"
| "movement_case UP sq dir mvmt (cs, row) =
     slide (UP_MOVEMENT_POSSIBLE cs) 8 mvmt (cs, row)"
| "movement_case DOWN sq dir mvmt (cs, row) =
     slide (DOWN_MOVEMENT_POSSIBLE cs) (- 8) mvmt (cs, row)"
| "movement_case DIAG_UL sq dir mvmt (cs, row) =
     slide (LEFT_MOVEMENT_POSSIBLE cs \<and> UP_MOVEMENT_POSSIBLE cs) (8 - 1) mvmt (cs, row)"
| "movement_case DIAG_UR sq dir mvmt (cs, row) =
     slide (RIGHT_MOVEMENT_POSSIBLE cs \<and> UP_MOVEMENT_POSSIBLE cs) (8 + 1) mvmt (cs, row)"
| "movement_case DIAG_DL sq dir mvmt (cs, row) =
     slide (LEFT_MOVEMENT_POSSIBLE cs \<and> DOWN_MOVEMENT_POSSIBLE cs) (- 8 - 1) mvmt (cs, row)"
| "movement_case DIAG_DR sq dir mvmt (cs, row) =
     slide (RIGHT_MOVEMENT_POSSIBLE cs \<and> DOWN_MOVEMENT_POSSIBLE cs) (- 8 + 1) mvmt (cs, row)"
| "movement_case KNIGHTmove sq dir mvmt (cs, row) =
     (sq,
      if dir = 0 then
        jump (RIGHT2_MOVEMENT_POSSIBLE sq \<and> UP_MOVEMENT_POSSIBLE sq) (sq + 2 + 8) row
      else if dir = 1 then
        jump (RIGHT2_MOVEMENT_POSSIBLE sq \<and> DOWN_MOVEMENT_POSSIBLE sq) (sq + 2 - 8) row
      else if dir = 2 then
        jump (LEFT2_MOVEMENT_POSSIBLE sq \<and> UP_MOVEMENT_POSSIBLE sq) (sq - 2 + 8) row
      else if dir = 3 then
        jump (LEFT2_MOVEMENT_POSSIBLE sq \<and> DOWN_MOVEMENT_POSSIBLE sq) (sq - 2 - 8) row
      else if dir = 4 then
        jump (RIGHT_MOVEMENT_POSSIBLE sq \<and> UP2_MOVEMENT_POSSIBLE sq) (sq + 1 + 16) row
      else if dir = 5 then
        jump (RIGHT_MOVEMENT_POSSIBLE sq \<and> DOWN2_MOVEMENT_POSSIBLE sq) (sq + 1 - 16) row
      else if dir = 6 then
        jump (LEFT_MOVEMENT_POSSIBLE sq \<and> UP2_MOVEMENT_POSSIBLE sq) (sq - 1 + 16) row
      else if dir = 7 then
        jump (LEFT_MOVEMENT_POSSIBLE sq \<and> DOWN2_MOVEMENT_POSSIBLE sq) (sq - 1 - 16) row
      else row)"
| "movement_case PAWNmove sq dir mvmt (cs, row) = (cs, row)"
| "movement_case PAWN2move sq dir mvmt (cs, row) = (cs, row)"

text \<open>The loop over \<open>mvmt\<close>, and after it the all-ones vector that ends the list.\<close>

function movement_loop ::
  "piece_t \<Rightarrow> int \<Rightarrow> nat \<Rightarrow> nat \<Rightarrow> int \<times> movement list \<Rightarrow> movement list" where
  "movement_loop piece sq dir mvmt st =
     (if mvmt < maximum_movements_in_one_direction piece
      then movement_loop piece sq dir (mvmt + 1)
             (movement_case (movementdir piece dir) sq dir mvmt st)
      else (snd st)[mvmt := end_of_list])"
  by pat_completeness auto
termination
  by (relation "measure (\<lambda>(piece, sq, dir, mvmt, st).
        maximum_movements_in_one_direction piece - mvmt)") auto

declare movement_loop.simps [simp del]

text \<open>The row \<open>movements[piece][square][dir]\<close> after \<open>init_movements\<close>.\<close>

definition movements :: "piece_t \<Rightarrow> nat \<Rightarrow> nat \<Rightarrow> movement list" where
  "movements piece sq dir =
     (if dir < number_of_movement_directions piece
      then movement_loop piece (int sq) dir 0 (int sq, zero_row)
      else zero_row)"

text \<open>
  A scan \<open>for (movementptr = row; (movementptr->vector & v) == 0; movementptr++)\<close>:
  the movements it passes, and the one it stops at. Every row that is scanned ends with
  the all-ones vector, which stops the scan unless \<open>v\<close> is 0; a scan that leaves the
  row has no result here.
\<close>

definition ray_passed :: "int64 \<Rightarrow> movement list \<Rightarrow> movement list" where
  "ray_passed v row = takeWhile (\<lambda>m. vector m AND v = 0) row"

definition ray_stop :: "int64 \<Rightarrow> movement list \<Rightarrow> movement option" where
  "ray_stop v row =
     (case dropWhile (\<lambda>m. vector m AND v = 0) row of [] \<Rightarrow> None | m # ms \<Rightarrow> Some m)"

text \<open>
  The test of \<open>verify_movements\<close>: a piece on \<open>squareA\<close> of an otherwise empty board can
  move to \<open>squareB\<close> when in some direction the scan for the bit of \<open>squareB\<close> stops at a
  movement whose square is \<open>squareB\<close>.
\<close>

definition movement_possible :: "piece_t \<Rightarrow> nat \<Rightarrow> nat \<Rightarrow> bool" where
  "movement_possible piece squareA squareB =
     (\<exists>dir \<in> {0..<number_of_movement_directions piece}.
        case ray_stop (bitvector squareB) (movements piece squareA dir) of
          None \<Rightarrow> False
        | Some m \<Rightarrow> square m = int squareB)"

subsection \<open>Initializing the entries\<close>

definition initialize_index_as_illegal :: "tablebase \<Rightarrow> int32 \<Rightarrow> tablebase" where
  "initialize_index_as_illegal tb index =
     set_entry tb index
       ((entries tb index)\<lparr>movecnt := ILLEGAL_POSITION, mate_in_cnt := 255, stalemate_cnt := 255\<rparr>)"

definition initialize_index_with_white_mated ::
  "tablebase \<Rightarrow> int32 \<Rightarrow> tablebase \<times> diagnostics" where
  "initialize_index_with_white_mated tb index =
     (let tb1 = set_entry tb index
                  ((entries tb index)\<lparr>movecnt := PTM_WINS_PROPAGATION_NEEDED,
                                        mate_in_cnt := 0, stalemate_cnt := 0\<rparr>)
      in (fst (black_wins tb1 index 0 0),
          (if WHITE_TO_MOVE index
           then [''initialize_index_with_white_mated in a white to move position!'']
           else []) @ snd (black_wins tb1 index 0 0)))"

definition initialize_index_with_black_mated ::
  "tablebase \<Rightarrow> int32 \<Rightarrow> tablebase \<times> diagnostics" where
  "initialize_index_with_black_mated tb index =
     (set_entry tb index
        ((entries tb index)\<lparr>movecnt := PTM_WINS_PROPAGATION_NEEDED,
                              mate_in_cnt := 0, stalemate_cnt := 0\<rparr>),
      if BLACK_TO_MOVE index
      then [''initialize_index_with_black_mated in a black to move position!'']
      else [])"

definition initialize_index_with_stalemate :: "tablebase \<Rightarrow> int32 \<Rightarrow> tablebase" where
  "initialize_index_with_stalemate tb index =
     set_entry tb index
       ((entries tb index)\<lparr>movecnt := 251, mate_in_cnt := 255, stalemate_cnt := 0\<rparr>)"

definition initialize_index_with_movecnt :: "tablebase \<Rightarrow> int32 \<Rightarrow> int \<Rightarrow> tablebase" where
  "initialize_index_with_movecnt tb index count =
     set_entry tb index
       ((entries tb index)\<lparr>movecnt := word_of_int count, mate_in_cnt := 255,
                             stalemate_cnt := 255\<rparr>)"

text \<open>
  How the counting of the forward moves of one index ends: with the count, at one of the
  two \<open>goto mated\<close>, or with a scan that left its row (which no run of the program
  does, see \<open>count_pieces_in_row\<close>).
\<close>

datatype count_result = Counted int | Black_mated | White_mated | Out_of_row

text \<open>
  One direction of one piece: every movement that the scan passes is a move; the
  movement at which it stops is one more move unless it hits a piece of the side to
  move, and it is a mate if its square is that of the enemy king.
\<close>

definition count_direction ::
  "tablebase \<Rightarrow> position \<Rightarrow> nat \<Rightarrow> nat \<Rightarrow> int \<Rightarrow> count_result" where
  "count_direction tb p piece dir count =
     (let row = movements (mobile_piece_type tb ! piece)
                  (nat (mobile_piece_position p ! piece)) dir;
          count1 = count + int (length (ray_passed (board_vector p) row))
      in case ray_stop (board_vector p) row of
           None \<Rightarrow> Out_of_row
         | Some m \<Rightarrow>
             if side_to_move p = WHITE then
               if vector m AND white_vector p = 0 then
                 if square m = mobile_piece_position p ! BLACK_KING then Black_mated
                 else Counted (count1 + 1)
               else Counted count1
             else
               if vector m AND black_vector p = 0 then
                 if square m = mobile_piece_position p ! WHITE_KING then White_mated
                 else Counted (count1 + 1)
               else Counted count1)"

function count_directions ::
  "tablebase \<Rightarrow> position \<Rightarrow> nat \<Rightarrow> nat \<Rightarrow> int \<Rightarrow> count_result" where
  "count_directions tb p piece dir count =
     (if dir < number_of_movement_directions (mobile_piece_type tb ! piece)
      then case count_direction tb p piece dir count of
             Counted count1 \<Rightarrow> count_directions tb p piece (dir + 1) count1
           | r \<Rightarrow> r
      else Counted count)"
  by pat_completeness auto
termination
  by (relation "measure (\<lambda>(tb, p, piece, dir, count).
        number_of_movement_directions (mobile_piece_type tb ! piece) - dir)") auto

declare count_directions.simps [simp del]

function count_pieces :: "tablebase \<Rightarrow> position \<Rightarrow> nat \<Rightarrow> int \<Rightarrow> count_result" where
  "count_pieces tb p piece count =
     (if piece < num_mobiles tb then
        if mobile_piece_color tb ! piece \<noteq> side_to_move p
        then count_pieces tb p (piece + 1) count
        else case count_directions tb p piece 0 count of
               Counted count1 \<Rightarrow> count_pieces tb p (piece + 1) count1
             | r \<Rightarrow> r
      else Counted count)"
  by pat_completeness auto
termination
  by (relation "measure (\<lambda>(tb, p, piece, count). num_mobiles tb - piece)") auto

declare count_pieces.simps [simp del]

text \<open>The body of the loop of \<open>initialize_tablebase\<close> for one index.\<close>

definition initialize_index :: "tablebase \<Rightarrow> int32 \<Rightarrow> tablebase option" where
  "initialize_index tb index =
     (case index_to_position tb index of
        (False, parent_position) \<Rightarrow> Some (initialize_index_as_illegal tb index)
      | (True, parent_position) \<Rightarrow>
          (case count_pieces tb parent_position 0 0 of
             Counted count \<Rightarrow>
               Some (if count = 0 then initialize_index_with_stalemate tb index
                     else initialize_index_with_movecnt tb index count)
           | Black_mated \<Rightarrow> Some (fst (initialize_index_with_black_mated tb index))
           | White_mated \<Rightarrow> Some (fst (initialize_index_with_white_mated tb index))
           | Out_of_row \<Rightarrow> None))"

text \<open>The index of the loop does not wrap around: it stays below \<open>max_index_static\<close>.\<close>

lemma unat_succ_less:
  assumes "(i::int32) < m"
  shows "unat (i + 1) = unat i + 1"
proof -
  have "unat i < unat m" using assms by (simp add: word_less_nat_alt)
  moreover have "unat m < 2 ^ 32" using unsigned_less[of m] by simp
  ultimately have "unat i + unat (1::int32) < 2 ^ LENGTH(32)" by simp
  then have "unat (i + 1) = unat i + unat (1::int32)"
    by (simp only: unat_add_lem)
  then show ?thesis by simp
qed

function initialize_tablebase_loop ::
  "tablebase \<Rightarrow> int32 \<Rightarrow> int32 \<Rightarrow> tablebase option" where
  "initialize_tablebase_loop tb index max_index_static =
     (if index < max_index_static
      then case initialize_index tb index of
             None \<Rightarrow> None
           | Some tb1 \<Rightarrow> initialize_tablebase_loop tb1 (index + 1) max_index_static
      else Some tb)"
  by pat_completeness auto
termination
proof (relation "measure (\<lambda>(tb, index, max_index_static). unat max_index_static - unat index)")
  show "wf (measure (\<lambda>(tb, index, max_index_static). unat max_index_static - unat index))"
    by simp
next
  fix tb :: tablebase and index max_index_static :: int32 and tb1 :: tablebase
  assume "index < max_index_static"
  then have "unat index < unat max_index_static"
    by (simp add: word_less_nat_alt)
  moreover have "unat (index + 1) = unat index + 1"
    using \<open>index < max_index_static\<close> by (rule unat_succ_less)
  ultimately show "((tb1, index + 1, max_index_static), (tb, index, max_index_static))
      \<in> measure (\<lambda>(tb, index, max_index_static). unat max_index_static - unat index)"
    by simp
qed

declare initialize_tablebase_loop.simps [simp del]

definition initialize_tablebase :: "tablebase \<Rightarrow> tablebase option" where
  "initialize_tablebase tb = initialize_tablebase_loop tb 0 (max_index tb)"

subsection \<open>The squares along a direction\<close>

text \<open>
  What \<open>init_movements\<close> computes, written as a walk over the board: \<open>walk T D k cs\<close> is
  the square reached from \<open>cs\<close> by \<open>k\<close> steps of \<open>D\<close>, each allowed by the edge test
  \<open>T\<close> on the square it leaves, and \<open>slot\<close> is the table slot for the outcome. The edge
  test and the step of a piece kind and direction are \<open>move_test\<close> and \<open>move_delta\<close>.
\<close>

fun walk :: "(int \<Rightarrow> bool) \<Rightarrow> int \<Rightarrow> nat \<Rightarrow> int \<Rightarrow> int option" where
  "walk T D 0 cs = Some cs"
| "walk T D (Suc k) cs = (if T cs then walk T D k (cs + D) else None)"

definition slot :: "int option \<Rightarrow> movement" where
  "slot t = (case t of None \<Rightarrow> end_of_list | Some sq \<Rightarrow> movement_to sq)"

fun slide_test :: "movementdir_t \<Rightarrow> int \<Rightarrow> bool" where
  "slide_test RIGHT cs = RIGHT_MOVEMENT_POSSIBLE cs"
| "slide_test LEFT cs = LEFT_MOVEMENT_POSSIBLE cs"
| "slide_test UP cs = UP_MOVEMENT_POSSIBLE cs"
| "slide_test DOWN cs = DOWN_MOVEMENT_POSSIBLE cs"
| "slide_test DIAG_UL cs = (LEFT_MOVEMENT_POSSIBLE cs \<and> UP_MOVEMENT_POSSIBLE cs)"
| "slide_test DIAG_UR cs = (RIGHT_MOVEMENT_POSSIBLE cs \<and> UP_MOVEMENT_POSSIBLE cs)"
| "slide_test DIAG_DL cs = (LEFT_MOVEMENT_POSSIBLE cs \<and> DOWN_MOVEMENT_POSSIBLE cs)"
| "slide_test DIAG_DR cs = (RIGHT_MOVEMENT_POSSIBLE cs \<and> DOWN_MOVEMENT_POSSIBLE cs)"
| "slide_test d cs = False"

fun slide_delta :: "movementdir_t \<Rightarrow> int" where
  "slide_delta RIGHT = 1"
| "slide_delta LEFT = - 1"
| "slide_delta UP = 8"
| "slide_delta DOWN = - 8"
| "slide_delta DIAG_UL = 7"
| "slide_delta DIAG_UR = 9"
| "slide_delta DIAG_DL = - 9"
| "slide_delta DIAG_DR = - 7"
| "slide_delta d = 0"

definition knight_test :: "nat \<Rightarrow> int \<Rightarrow> bool" where
  "knight_test dir sq =
     (if dir = 0 then RIGHT2_MOVEMENT_POSSIBLE sq \<and> UP_MOVEMENT_POSSIBLE sq
      else if dir = 1 then RIGHT2_MOVEMENT_POSSIBLE sq \<and> DOWN_MOVEMENT_POSSIBLE sq
      else if dir = 2 then LEFT2_MOVEMENT_POSSIBLE sq \<and> UP_MOVEMENT_POSSIBLE sq
      else if dir = 3 then LEFT2_MOVEMENT_POSSIBLE sq \<and> DOWN_MOVEMENT_POSSIBLE sq
      else if dir = 4 then RIGHT_MOVEMENT_POSSIBLE sq \<and> UP2_MOVEMENT_POSSIBLE sq
      else if dir = 5 then RIGHT_MOVEMENT_POSSIBLE sq \<and> DOWN2_MOVEMENT_POSSIBLE sq
      else if dir = 6 then LEFT_MOVEMENT_POSSIBLE sq \<and> UP2_MOVEMENT_POSSIBLE sq
      else LEFT_MOVEMENT_POSSIBLE sq \<and> DOWN2_MOVEMENT_POSSIBLE sq)"

definition knight_delta :: "nat \<Rightarrow> int" where
  "knight_delta dir = [10, - 6, 6, - 10, 17, - 15, 15, - 17] ! dir"

definition move_test :: "piece_t \<Rightarrow> nat \<Rightarrow> int \<Rightarrow> bool" where
  "move_test piece dir cs =
     (if piece = KNIGHT then knight_test dir cs else slide_test (movementdir piece dir) cs)"

definition move_delta :: "piece_t \<Rightarrow> nat \<Rightarrow> int" where
  "move_delta piece dir =
     (if piece = KNIGHT then knight_delta dir else slide_delta (movementdir piece dir))"

definition sliding :: "movementdir_t \<Rightarrow> bool" where
  "sliding d = (d \<in> {RIGHT, LEFT, UP, DOWN, DIAG_UL, DIAG_UR, DIAG_DL, DIAG_DR})"

definition on_board :: "int \<Rightarrow> bool" where
  "on_board cs = (0 \<le> cs \<and> cs < 64)"

definition opposite :: "piece_t \<Rightarrow> nat \<Rightarrow> nat" where
  "opposite piece dir =
     (case piece of
        KING \<Rightarrow> [1, 0, 3, 2, 7, 6, 5, 4]
      | QUEEN \<Rightarrow> [1, 0, 3, 2, 7, 6, 5, 4]
      | ROOK \<Rightarrow> [1, 0, 3, 2]
      | BISHOP \<Rightarrow> [3, 2, 1, 0]
      | KNIGHT \<Rightarrow> [3, 2, 1, 0, 7, 6, 5, 4]
      | PAWN \<Rightarrow> [0]
      | PAWNep \<Rightarrow> [0]) ! dir"

fun opposite_dir :: "movementdir_t \<Rightarrow> movementdir_t" where
  "opposite_dir RIGHT = LEFT"
| "opposite_dir LEFT = RIGHT"
| "opposite_dir UP = DOWN"
| "opposite_dir DOWN = UP"
| "opposite_dir DIAG_UL = DIAG_DR"
| "opposite_dir DIAG_UR = DIAG_DL"
| "opposite_dir DIAG_DL = DIAG_UR"
| "opposite_dir DIAG_DR = DIAG_UL"
| "opposite_dir d = d"

definition reaches :: "piece_t \<Rightarrow> nat \<Rightarrow> nat \<Rightarrow> bool" where
  "reaches piece A B =
     (\<exists>dir < number_of_movement_directions piece.
        \<exists>k < maximum_movements_in_one_direction piece.
          walk (move_test piece dir) (move_delta piece dir) (Suc k) (int A) = Some (int B))"

subsection \<open>Positions and king captures\<close>

text \<open>
  What \<open>index_to_position\<close> leaves in a position, whether it succeeds or not: eight
  squares between 0 and 63, and every square other than 0 is occupied on the board.
\<close>

definition position_ok :: "position \<Rightarrow> bool" where
  "position_ok p =
     (length (mobile_piece_position p) = MAX_MOBILES
      \<and> (\<forall>k<MAX_MOBILES.
            0 \<le> mobile_piece_position p ! k \<and> mobile_piece_position p ! k < 64
            \<and> (mobile_piece_position p ! k \<noteq> 0 \<longrightarrow>
                 board_vector p AND bitvector (nat (mobile_piece_position p ! k)) \<noteq> 0)))"

text \<open>
  The test of \<open>initialize_tablebase\<close> after the scan of one direction: the movement at
  which the scan stops does not hit a piece of the side to move (it is counted as a
  capture), and its square is that of the enemy king.
\<close>

definition captures_king :: "tablebase \<Rightarrow> position \<Rightarrow> nat \<Rightarrow> nat \<Rightarrow> bool" where
  "captures_king tb p piece dir =
     (case ray_stop (board_vector p)
             (movements (mobile_piece_type tb ! piece)
                (nat (mobile_piece_position p ! piece)) dir) of
        None \<Rightarrow> False
      | Some m \<Rightarrow>
          if side_to_move p = WHITE
          then vector m AND white_vector p = 0
               \<and> square m = mobile_piece_position p ! BLACK_KING
          else vector m AND black_vector p = 0
               \<and> square m = mobile_piece_position p ! WHITE_KING)"

definition mated :: "color_t \<Rightarrow> count_result" where
  "mated side = (if side = WHITE then Black_mated else White_mated)"

definition king_capture_from :: "tablebase \<Rightarrow> position \<Rightarrow> nat \<Rightarrow> nat \<Rightarrow> bool" where
  "king_capture_from tb p piece dir =
     (\<exists>d. dir \<le> d \<and> d < number_of_movement_directions (mobile_piece_type tb ! piece)
          \<and> captures_king tb p piece d)"

definition king_capture_by :: "tablebase \<Rightarrow> position \<Rightarrow> nat \<Rightarrow> bool" where
  "king_capture_by tb p piece =
     (\<exists>pc. piece \<le> pc \<and> pc < num_mobiles tb
           \<and> mobile_piece_color tb ! pc = side_to_move p
           \<and> king_capture_from tb p pc 0)"

text \<open>Two tables for the same pieces: they differ in their entries only.\<close>

definition same_config :: "tablebase \<Rightarrow> tablebase \<Rightarrow> bool" where
  "same_config tb tb1 =
     (num_mobiles tb1 = num_mobiles tb
      \<and> mobile_piece_type tb1 = mobile_piece_type tb
      \<and> mobile_piece_color tb1 = mobile_piece_color tb)"

subsection \<open>Example tables\<close>

text \<open>A K+Q vs K table in which index 1 (black to move) has two moves left to analyse and a
  mate-in count of 3, and index 2 (white to move) has one move left.\<close>

definition pending_example :: tablebase where
  "pending_example =
     set_entry (set_entry create_tablebase 1
        \<lparr>movecnt = 2, mate_in_cnt = 3, stalemate_cnt = 255, reserved = 0\<rparr>) 2
        \<lparr>movecnt = 1, mate_in_cnt = 255, stalemate_cnt = 255, reserved = 0\<rparr>"

text \<open>A table in which index 0 (white to move) is won by white with mate in 4 and index 1
  (black to move) is won by black with mate in 2, both already propagated.\<close>

definition won_example :: tablebase where
  "won_example =
     set_entry (set_entry create_tablebase 0
        \<lparr>movecnt = 254, mate_in_cnt = 4, stalemate_cnt = 4, reserved = 0\<rparr>) 1
        \<lparr>movecnt = 254, mate_in_cnt = 2, stalemate_cnt = 2, reserved = 0\<rparr>"

text \<open>A table in which index 1 (black to move) is already won by white (the player not
  to move) with mate in 200.\<close>

definition reported_example :: tablebase where
  "reported_example =
     set_entry create_tablebase 1
        \<lparr>movecnt = 253, mate_in_cnt = 200, stalemate_cnt = 200, reserved = 0\<rparr>"

section \<open>Properties\<close>

subsection \<open>The entry operations\<close>

lemmas state_defs = ILLEGAL_POSITION_def PTM_WINS_PROPAGATION_DONE_def
  PNTM_WINS_PROPAGATION_DONE_def PTM_WINS_PROPAGATION_NEEDED_def
  PNTM_WINS_PROPAGATION_NEEDED_def MAX_MOVECNT_def

lemmas example_defs = pending_example_def won_example_def reported_example_def set_entry_def create_tablebase_def
  zero_entry_def WHITE_TO_MOVE_def BLACK_TO_MOVE_def

lemma side_cases: "WHITE_TO_MOVE index \<noteq> BLACK_TO_MOVE index"
  unfolding WHITE_TO_MOVE_def BLACK_TO_MOVE_def
  by (metis and_one_eq even_iff_mod_2_eq_zero odd_iff_mod_2_eq_one zero_neq_one)

lemma pending_counter_not_state:
  assumes "1 \<le> c" and "c \<le> MAX_MOVECNT"
  shows "c \<noteq> PTM_WINS_PROPAGATION_NEEDED" and "c \<noteq> PTM_WINS_PROPAGATION_DONE"
    and "c \<noteq> 0" and "\<not> c > MAX_MOVECNT"
  using assms unfolding state_defs by (auto simp: word_le_nat_alt word_less_nat_alt)

text \<open>
  C1, as the claim states it, fails: at the black-to-move index 1 of \<open>pending_example\<close>
  the counter is 2 (within 1..251) and the stored mate-in count is 3; after
  \<open>add_one_to_white_wins\<close> with a mate-in count of 5 the stored count is 5, not the
  minimum 3.
\<close>

theorem add_one_keeps_minimum_counterexample:
  "1 \<le> movecnt (entries pending_example 1)
   \<and> movecnt (entries pending_example 1) \<le> MAX_MOVECNT
   \<and> uint (mate_in_cnt (entries (fst (add_one_to_white_wins pending_example 1 5 5)) 1))
       \<noteq> min (uint (mate_in_cnt (entries pending_example 1))) 5"
  by (simp add: add_one_to_white_wins_def count_one_win_def Let_def example_defs state_defs)

text \<open>
  C1 (amended): for an entry whose movecnt is a pending forward-move counter (1..251),
  \<open>add_one_to_white_wins\<close> at a black-to-move index and \<open>add_one_to_black_wins\<close> at a
  white-to-move index store the mate-in count argument (its low eight bits) in
  \<open>mate_in_cnt\<close>, whatever value was there before, and the only line they write is the
  mate-in-count-dropped line, exactly when the argument is smaller than a stored count
  other than 255; at an index of the other side to move they leave the table as it is.
  For an entry whose movecnt is not a pending counter (0 or 252..255, hence every final
  verdict) both functions leave the table as it is, so that \<open>mate_in_cnt\<close> does not
  change after a final verdict.
\<close>

theorem add_one_assigns_mate_in_count:
  "(1 \<le> movecnt (entries tb index) \<and> movecnt (entries tb index) \<le> MAX_MOVECNT
      \<and> BLACK_TO_MOVE index \<longrightarrow>
        mate_in_cnt (entries (fst (add_one_to_white_wins tb index m s)) index) = word_of_int m
      \<and> snd (add_one_to_white_wins tb index m s) =
          (if m < uint (mate_in_cnt (entries tb index)) \<and> mate_in_cnt (entries tb index) \<noteq> 255
           then [''mate-in count dropped in add_one_to_white_wins?''] else [])
      \<and> fst (add_one_to_black_wins tb index m s) = tb)
   \<and> (1 \<le> movecnt (entries tb index) \<and> movecnt (entries tb index) \<le> MAX_MOVECNT
      \<and> WHITE_TO_MOVE index \<longrightarrow>
        mate_in_cnt (entries (fst (add_one_to_black_wins tb index m s)) index) = word_of_int m
      \<and> snd (add_one_to_black_wins tb index m s) =
          (if m < uint (mate_in_cnt (entries tb index)) \<and> mate_in_cnt (entries tb index) \<noteq> 255
           then [''mate-in count dropped in add_one_to_black_wins?''] else [])
      \<and> fst (add_one_to_white_wins tb index m s) = tb)
   \<and> (\<not> (1 \<le> movecnt (entries tb index) \<and> movecnt (entries tb index) \<le> MAX_MOVECNT) \<longrightarrow>
        fst (add_one_to_white_wins tb index m s) = tb
      \<and> fst (add_one_to_black_wins tb index m s) = tb)"
proof (intro conjI impI)
  assume a: "1 \<le> movecnt (entries tb index) \<and> movecnt (entries tb index) \<le> MAX_MOVECNT
      \<and> BLACK_TO_MOVE index"
  then have p: "1 \<le> movecnt (entries tb index)" "movecnt (entries tb index) \<le> MAX_MOVECNT"
    by simp_all
  show "mate_in_cnt (entries (fst (add_one_to_white_wins tb index m s)) index) = word_of_int m"
    using pending_counter_not_state[OF p] side_cases[of index] a
    by (auto simp: add_one_to_white_wins_def set_entry_def count_one_win_def Let_def)
  show "snd (add_one_to_white_wins tb index m s) =
          (if m < uint (mate_in_cnt (entries tb index)) \<and> mate_in_cnt (entries tb index) \<noteq> 255
           then [''mate-in count dropped in add_one_to_white_wins?''] else [])"
    using pending_counter_not_state[OF p] side_cases[of index] a
    by (auto simp: add_one_to_white_wins_def)
  show "fst (add_one_to_black_wins tb index m s) = tb"
    using a by (simp add: add_one_to_black_wins_def)
next
  assume a: "1 \<le> movecnt (entries tb index) \<and> movecnt (entries tb index) \<le> MAX_MOVECNT
      \<and> WHITE_TO_MOVE index"
  then have p: "1 \<le> movecnt (entries tb index)" "movecnt (entries tb index) \<le> MAX_MOVECNT"
    by simp_all
  show "mate_in_cnt (entries (fst (add_one_to_black_wins tb index m s)) index) = word_of_int m"
    using pending_counter_not_state[OF p] side_cases[of index] a
    by (auto simp: add_one_to_black_wins_def set_entry_def count_one_win_def Let_def)
  show "snd (add_one_to_black_wins tb index m s) =
          (if m < uint (mate_in_cnt (entries tb index)) \<and> mate_in_cnt (entries tb index) \<noteq> 255
           then [''mate-in count dropped in add_one_to_black_wins?''] else [])"
    using pending_counter_not_state[OF p] side_cases[of index] a
    by (auto simp: add_one_to_black_wins_def)
  show "fst (add_one_to_white_wins tb index m s) = tb"
    using a by (simp add: add_one_to_white_wins_def)
next
  assume a: "\<not> (1 \<le> movecnt (entries tb index) \<and> movecnt (entries tb index) \<le> MAX_MOVECNT)"
  then have v: "movecnt (entries tb index) = 0 \<or> movecnt (entries tb index) > MAX_MOVECNT"
    by (metis word_le_0_iff linorder_not_less inc_le word_less_1 not_le_imp_less)
  show "fst (add_one_to_white_wins tb index m s) = tb"
    using v by (auto simp: add_one_to_white_wins_def)
  show "fst (add_one_to_black_wins tb index m s) = tb"
    using v by (auto simp: add_one_to_black_wins_def)
qed

text \<open>C1 (amended), at the two pending entries of \<open>pending_example\<close> (a count of 5 over
  a stored 3 is stored silently, a count of 2 is reported, and nothing is reported over a
  stored 255) and at the two won entries of \<open>won_example\<close>.\<close>

theorem add_one_assigns_mate_in_count_witness:
  "mate_in_cnt (entries (fst (add_one_to_white_wins pending_example 1 5 5)) 1) = 5
   \<and> snd (add_one_to_white_wins pending_example 1 5 5) = []
   \<and> snd (add_one_to_white_wins pending_example 1 2 2)
       = [''mate-in count dropped in add_one_to_white_wins?'']
   \<and> fst (add_one_to_black_wins pending_example 1 5 5) = pending_example
   \<and> mate_in_cnt (entries (fst (add_one_to_black_wins pending_example 2 7 7)) 2) = 7
   \<and> snd (add_one_to_black_wins pending_example 2 7 7) = []
   \<and> fst (add_one_to_white_wins pending_example 2 7 7) = pending_example
   \<and> fst (add_one_to_white_wins won_example 1 9 9) = won_example
   \<and> fst (add_one_to_black_wins won_example 0 9 9) = won_example"
proof -
  have a: "1 \<le> movecnt (entries pending_example 1)
      \<and> movecnt (entries pending_example 1) \<le> MAX_MOVECNT \<and> BLACK_TO_MOVE 1"
    by (simp add: example_defs state_defs)
  have b: "1 \<le> movecnt (entries pending_example 2)
      \<and> movecnt (entries pending_example 2) \<le> MAX_MOVECNT \<and> WHITE_TO_MOVE 2"
    by (simp add: example_defs state_defs)
  have c: "\<not> (1 \<le> movecnt (entries won_example 1)
      \<and> movecnt (entries won_example 1) \<le> MAX_MOVECNT)"
    "\<not> (1 \<le> movecnt (entries won_example 0)
      \<and> movecnt (entries won_example 0) \<le> MAX_MOVECNT)"
    by (simp_all add: example_defs state_defs)
  have v: "uint (mate_in_cnt (entries pending_example 1)) = 3"
    "mate_in_cnt (entries pending_example 1) \<noteq> 255"
    "mate_in_cnt (entries pending_example 2) = 255"
    by (simp_all add: example_defs)
  show ?thesis
    using add_one_assigns_mate_in_count[of pending_example 1 5 5]
      add_one_assigns_mate_in_count[of pending_example 1 2 2]
      add_one_assigns_mate_in_count[of pending_example 2 7 7]
      add_one_assigns_mate_in_count[of won_example 1 9 9]
      add_one_assigns_mate_in_count[of won_example 0 9 9]
      a b c v
    by simp
qed

text \<open>
  C5: at a black-to-move index whose entry has movecnt in 1..251,
  \<open>add_one_to_white_wins\<close> lowers movecnt by exactly one, and from 1 it reaches
  \<open>PNTM_WINS_PROPAGATION_NEEDED\<close> (0) by the decrement alone; the same holds for
  \<open>add_one_to_black_wins\<close> at a white-to-move index.
\<close>

theorem add_one_decrements_movecnt:
  assumes "1 \<le> movecnt (entries tb index)" and "movecnt (entries tb index) \<le> MAX_MOVECNT"
  shows "(BLACK_TO_MOVE index \<longrightarrow>
            uint (movecnt (entries (fst (add_one_to_white_wins tb index m s)) index))
              = uint (movecnt (entries tb index)) - 1
          \<and> (movecnt (entries tb index) = 1 \<longrightarrow>
               movecnt (entries (fst (add_one_to_white_wins tb index m s)) index)
                 = PNTM_WINS_PROPAGATION_NEEDED))
       \<and> (WHITE_TO_MOVE index \<longrightarrow>
            uint (movecnt (entries (fst (add_one_to_black_wins tb index m s)) index))
              = uint (movecnt (entries tb index)) - 1
          \<and> (movecnt (entries tb index) = 1 \<longrightarrow>
               movecnt (entries (fst (add_one_to_black_wins tb index m s)) index)
                 = PNTM_WINS_PROPAGATION_NEEDED))"
proof -
  have dec: "uint (movecnt (entries tb index) - 1) = uint (movecnt (entries tb index)) - 1"
    using assms(1) by (simp add: uint_sub_if' word_le_def)
  show ?thesis
    using pending_counter_not_state[OF assms] side_cases[of index] dec
    by (auto simp: add_one_to_white_wins_def add_one_to_black_wins_def set_entry_def
          count_one_win_def Let_def PNTM_WINS_PROPAGATION_NEEDED_def)
qed

text \<open>C5, at the two pending entries of \<open>pending_example\<close>: the counter 2 becomes 1, and
  the counter 1 becomes the state 0.\<close>

theorem add_one_decrements_movecnt_witness:
  "uint (movecnt (entries (fst (add_one_to_white_wins pending_example 1 5 5)) 1)) = 1
   \<and> movecnt (entries (fst (add_one_to_black_wins pending_example 2 7 7)) 2)
       = PNTM_WINS_PROPAGATION_NEEDED"
proof -
  have a: "1 \<le> movecnt (entries pending_example 1)"
    "movecnt (entries pending_example 1) \<le> MAX_MOVECNT"
    by (simp_all add: example_defs state_defs)
  have b: "1 \<le> movecnt (entries pending_example 2)"
    "movecnt (entries pending_example 2) \<le> MAX_MOVECNT"
    by (simp_all add: example_defs state_defs)
  have c: "BLACK_TO_MOVE 1" "WHITE_TO_MOVE 2" "movecnt (entries pending_example 2) = 1"
    "uint (movecnt (entries pending_example 1)) = 2"
    by (simp_all add: example_defs)
  show ?thesis
    using add_one_decrements_movecnt[OF a, of 5 5] add_one_decrements_movecnt[OF b, of 7 7] c
    by simp
qed

text \<open>
  The diagnostics of \<open>white_wins\<close> and \<open>black_wins\<close> at an entry that is already won:
  at an index of the other side to move the side-to-move line comes first.
\<close>

lemma white_wins_diagnostics:
  "does_white_win tb index \<Longrightarrow>
     snd (white_wins tb index m s) =
       (if WHITE_TO_MOVE index then [] else [''White_wins in a black to move position...''])
       @ (if m < uint (mate_in_cnt (entries tb index))
          then [''Mate in count dropped in white_wins!?''] else [])"
  "does_black_win tb index \<Longrightarrow>
     snd (white_wins tb index m s) =
       (if WHITE_TO_MOVE index then [] else [''White_wins in a black to move position...''])
       @ [''White_wins in a position where black already won?!'']"
  using side_cases[of index]
  by (auto simp: does_white_win_def does_black_win_def white_wins_def state_defs
      split: if_splits)

lemma black_wins_diagnostics:
  "does_black_win tb index \<Longrightarrow>
     snd (black_wins tb index m s) =
       (if BLACK_TO_MOVE index then [] else [''Black_wins in a white to move position...''])
       @ (if m < uint (mate_in_cnt (entries tb index))
          then [''Mate in count dropped in black_wins!?''] else [])"
  "does_white_win tb index \<Longrightarrow>
     snd (black_wins tb index m s) =
       (if BLACK_TO_MOVE index then [] else [''Black_wins in a white to move position...''])
       @ [''Black_wins in a position where white already won?!'']"
  using side_cases[of index]
  by (auto simp: does_white_win_def does_black_win_def black_wins_def state_defs
      split: if_splits)

text \<open>
  C7, as the claim states it, fails: at the black-to-move index 1 of \<open>reported_example\<close>
  the entry is already won by white with a mate-in count of 200; \<open>white_wins\<close> with the
  larger count 201 leaves the table as it is and yet writes a line (the side-to-move line),
  although the new count is not smaller.
\<close>

theorem wins_log_at_other_side_counterexample:
  "does_white_win reported_example 1
   \<and> \<not> 201 < uint (mate_in_cnt (entries reported_example 1))
   \<and> fst (white_wins reported_example 1 201 201) = reported_example
   \<and> snd (white_wins reported_example 1 201 201) \<noteq> []"
  by (simp add: does_white_win_def white_wins_def reported_example_def example_defs state_defs)

text \<open>
  C7 (amended): \<open>white_wins\<close> and \<open>black_wins\<close> leave the table, hence the entry's
  movecnt, mate_in_cnt and stalemate_cnt, unchanged whenever the entry already records a
  win for either side. In that case, at an index of the other side to move (\<open>white_wins\<close>
  at a black-to-move index, \<open>black_wins\<close> at a white-to-move index) they first write the
  side-to-move line; after it, for a win of the same side they write the
  mate-in-dropped line exactly when the new mate-in count is smaller than the stored one
  and nothing otherwise, and for a win of the opposite side they write the already-won
  line.
\<close>

theorem wins_keep_won_entry:
  "((does_white_win tb index \<or> does_black_win tb index) \<longrightarrow>
       fst (white_wins tb index m s) = tb \<and> fst (black_wins tb index m s) = tb)
   \<and> (does_white_win tb index \<longrightarrow>
        snd (white_wins tb index m s) =
          (if WHITE_TO_MOVE index then [] else [''White_wins in a black to move position...''])
          @ (if m < uint (mate_in_cnt (entries tb index))
             then [''Mate in count dropped in white_wins!?''] else [])
        \<and> snd (black_wins tb index m s) =
          (if BLACK_TO_MOVE index then [] else [''Black_wins in a white to move position...''])
          @ [''Black_wins in a position where white already won?!''])
   \<and> (does_black_win tb index \<longrightarrow>
        snd (black_wins tb index m s) =
          (if BLACK_TO_MOVE index then [] else [''Black_wins in a white to move position...''])
          @ (if m < uint (mate_in_cnt (entries tb index))
             then [''Mate in count dropped in black_wins!?''] else [])
        \<and> snd (white_wins tb index m s) =
          (if WHITE_TO_MOVE index then [] else [''White_wins in a black to move position...''])
          @ [''White_wins in a position where black already won?!''])"
proof -
  have "fst (white_wins tb index m s) = tb \<and> fst (black_wins tb index m s) = tb"
    if "does_white_win tb index \<or> does_black_win tb index"
    using that side_cases[of index]
    by (auto simp: does_white_win_def does_black_win_def white_wins_def black_wins_def state_defs
        split: if_splits)
  then show ?thesis
    using white_wins_diagnostics[of tb index m s] black_wins_diagnostics[of tb index m s]
    by blast
qed

text \<open>C7 (amended), at the two won entries of \<open>won_example\<close>: a later win with a larger
  mate-in count changes nothing and writes nothing, one with a smaller count is
  reported, and a win of the other side is reported after the side-to-move line.\<close>

theorem wins_keep_won_entry_witness:
  "does_white_win won_example 0 \<and> does_black_win won_example 1
   \<and> fst (white_wins won_example 0 6 6) = won_example
   \<and> fst (black_wins won_example 0 6 6) = won_example
   \<and> fst (white_wins won_example 1 1 1) = won_example
   \<and> fst (black_wins won_example 1 1 1) = won_example
   \<and> snd (white_wins won_example 0 6 6) = []
   \<and> snd (black_wins won_example 0 6 6)
       = [''Black_wins in a white to move position...'',
          ''Black_wins in a position where white already won?!'']
   \<and> snd (black_wins won_example 1 1 1) = [''Mate in count dropped in black_wins!?'']
   \<and> snd (white_wins won_example 1 1 1)
       = [''White_wins in a black to move position...'',
          ''White_wins in a position where black already won?!'']"
proof -
  have w: "does_white_win won_example 0" and b: "does_black_win won_example 1"
    by (simp_all add: does_white_win_def does_black_win_def example_defs state_defs)
  have m: "\<not> (6::int) < uint (mate_in_cnt (entries won_example 0))"
    "(1::int) < uint (mate_in_cnt (entries won_example 1))"
    by (simp_all add: example_defs)
  have t: "WHITE_TO_MOVE 0" "\<not> BLACK_TO_MOVE 0" "BLACK_TO_MOVE 1" "\<not> WHITE_TO_MOVE 1"
    by (simp_all add: example_defs)
  show ?thesis
    using wins_keep_won_entry[of won_example 0 6 6] wins_keep_won_entry[of won_example 1 1 1]
      w b m t
    by simp
qed

subsection \<open>Index and position\<close>

lemma uint_mask_small: "m < 32 \<Longrightarrow> uint (mask m :: int32) = 2 ^ m - 1"
proof -
  assume "m < 32"
  then have "uint (mask m :: int32) = (mask m :: int)"
    by (simp add: uint_mask_eq min_def)
  then show ?thesis by (simp only: mask_eq_exp_minus_1)
qed

lemma le_mask_take_bit:
  assumes "(i::int32) \<le> mask m"
  shows "take_bit m i = i"
proof (cases "m < 32")
  case False
  then show ?thesis by (simp add: take_bit_word_eq_self)
next
  case True
  have "uint i \<le> uint (mask m :: int32)"
    using assms by (simp add: word_le_def)
  then have "uint i < 2 ^ m"
    using uint_mask_small[OF True] by simp
  then have "i AND mask m = i"
    by (simp add: mask_eq_iff)
  then show ?thesis
    by (simp add: take_bit_eq_mask)
qed

lemma max_index_mask: "max_index tb = mask (6 * num_mobiles tb + 1)"
proof -
  have "push_bit (6 * num_mobiles tb) (2::int32) = 2 ^ (6 * num_mobiles tb + 1)"
    by (simp add: push_bit_eq_mult)
  then show ?thesis
    by (simp add: max_index_def mask_eq_exp_minus_1)
qed

lemma pack_step:
  "take_bit s (i::int32) OR push_bit s (word_of_int (int (unat (drop_bit s i AND 63))))
     = take_bit (s + 6) i"
proof -
  have m: "(63::int32) = mask 6" by (simp add: mask_eq_exp_minus_1)
  show ?thesis
    unfolding m
    by (rule bit_eqI) (auto simp: bit_simps take_bit_eq_mask[symmetric])
qed

lemma index_to_position_loop_squares:
  assumes "index_to_position_loop tb piece idx p = (True, q)"
  shows "length (mobile_piece_position q) = length (mobile_piece_position p)
       \<and> side_to_move q = side_to_move p
       \<and> (\<forall>k<piece. mobile_piece_position q ! k = mobile_piece_position p ! k)
       \<and> (\<forall>k. piece \<le> k \<and> k < num_mobiles tb \<and> k < length (mobile_piece_position p) \<longrightarrow>
             mobile_piece_position q ! k = int (unat (drop_bit (6 * (k - piece)) idx AND 63)))"
  using assms
proof (induction tb piece idx p rule: index_to_position_loop.induct)
  case (1 tb piece index p)
  show ?case
  proof (cases "piece < num_mobiles tb")
    case False
    with "1.prems" show ?thesis
      by (simp add: index_to_position_loop.simps[of tb piece index p])
  next
    case True
    define square where "square = unat (index AND 63)"
    define p1 where "p1 = p\<lparr>mobile_piece_position := (mobile_piece_position p)[piece := int square]\<rparr>"
    define p2 where "p2 = p1\<lparr>board_vector := board_vector p1 OR bitvector square\<rparr>"
    define p3 where "p3 = (if mobile_piece_color tb ! piece = WHITE
                       then p2\<lparr>white_vector := white_vector p2 OR bitvector square\<rparr>
                       else p2\<lparr>black_vector := black_vector p2 OR bitvector square\<rparr>)"
    have free: "\<not> board_vector p1 AND bitvector square \<noteq> 0"
      using "1.prems" True
      by (auto simp: index_to_position_loop.simps[of tb piece index p] Let_def square_def p1_def
          split: if_splits)
    have rec: "index_to_position_loop tb (piece + 1) (drop_bit 6 index) p3 = (True, q)"
      using "1.prems" True free
      by (auto simp: index_to_position_loop.simps[of tb piece index p] Let_def square_def p1_def
          p2_def p3_def split: if_splits)
    have ih: "length (mobile_piece_position q) = length (mobile_piece_position p3)
       \<and> side_to_move q = side_to_move p3
       \<and> (\<forall>k<piece + 1. mobile_piece_position q ! k = mobile_piece_position p3 ! k)
       \<and> (\<forall>k. piece + 1 \<le> k \<and> k < num_mobiles tb \<and> k < length (mobile_piece_position p3) \<longrightarrow>
             mobile_piece_position q ! k
               = int (unat (drop_bit (6 * (k - (piece + 1))) (drop_bit 6 index) AND 63)))"
      using "1.IH"[OF True square_def p1_def free p2_def p3_def rec] .
    have p3: "mobile_piece_position p3 = (mobile_piece_position p)[piece := int square]"
      "side_to_move p3 = side_to_move p"
      by (simp_all add: p3_def p2_def p1_def)
    have shift: "drop_bit (6 * (k - (piece + 1))) (drop_bit 6 index) = drop_bit (6 * (k - piece)) index"
      if "piece + 1 \<le> k" for k
    proof -
      have "6 * (k - (piece + 1)) + 6 = 6 * (k - piece)" using that by simp
      then show ?thesis by (simp add: add.commute)
    qed
    show ?thesis
    proof (intro conjI allI impI)
      show "length (mobile_piece_position q) = length (mobile_piece_position p)"
        using ih p3 by simp
      show "side_to_move q = side_to_move p" using ih p3 by simp
      show "mobile_piece_position q ! k = mobile_piece_position p ! k" if "k < piece" for k
        using ih p3 that by simp
      show "mobile_piece_position q ! k = int (unat (drop_bit (6 * (k - piece)) index AND 63))"
        if k: "piece \<le> k \<and> k < num_mobiles tb \<and> k < length (mobile_piece_position p)" for k
      proof (cases "k = piece")
        case True
        then show ?thesis using ih p3 k by (simp add: square_def)
      next
        case False
        then have "piece + 1 \<le> k" using k by simp
        then show ?thesis using ih p3 k shift[of k] by simp
      qed
    qed
  qed
qed

lemma position_to_index_loop_pack:
  assumes "\<forall>k. piece \<le> k \<and> k < num_mobiles tb \<longrightarrow>
             mobile_piece_position pos ! k = int (unat (drop_bit (1 + 6 * k) i AND 63))"
    and "piece \<le> num_mobiles tb" and "sc = 1 + 6 * piece" and "idx = take_bit sc i"
  shows "position_to_index_loop tb pos piece sc idx = take_bit (1 + 6 * num_mobiles tb) i"
  using assms
proof (induction tb pos piece sc idx rule: position_to_index_loop.induct)
  case (1 tb pos piece shift_count index)
  show ?case
  proof (cases "piece < num_mobiles tb")
    case False
    with "1.prems" show ?thesis
      by (subst position_to_index_loop.simps) simp
  next
    case True
    have sq: "mobile_piece_position pos ! piece = int (unat (drop_bit shift_count i AND 63))"
      using "1.prems" True by simp
    have "index OR push_bit shift_count (word_of_int (mobile_piece_position pos ! piece))
            = take_bit (shift_count + 6) i"
      unfolding sq "1.prems"(4) by (rule pack_step)
    moreover have "shift_count + 6 = 1 + 6 * (piece + 1)" using "1.prems"(3) by simp
    ultimately have "position_to_index_loop tb pos (piece + 1) (shift_count + 6)
             (index OR push_bit shift_count (word_of_int (mobile_piece_position pos ! piece)))
          = take_bit (1 + 6 * num_mobiles tb) i"
      using "1.IH"[OF True] "1.prems"(1) True by simp
    then show ?thesis
      using True by (simp add: position_to_index_loop.simps[of tb pos piece shift_count index])
  qed
qed

lemma color_number_of_bit: "color_number (color_of (i AND 1)) = take_bit 1 i"
proof -
  have "i AND 1 = 0 \<or> i AND 1 = 1"
    by (metis and_one_eq even_iff_mod_2_eq_zero odd_iff_mod_2_eq_one)
  moreover have "take_bit 1 i = i AND 1"
    by (simp add: take_bit_eq_mask)
  ultimately show ?thesis
    by (auto simp: color_number_def color_of_def)
qed

lemma field_fits: "0 \<le> x \<Longrightarrow> x < 64 \<Longrightarrow> take_bit 6 (word_of_int x :: int32) = word_of_int x"
proof -
  assume "0 \<le> x" "x < 64"
  then have "take_bit 6 x = x" by (simp add: take_bit_int_eq_self)
  then show ?thesis by (metis take_bit_of_int)
qed

lemma pack_keeps_low:
  assumes "take_bit sc (idx::int32) = idx"
  shows "take_bit sc (idx OR push_bit sc w) = idx"
proof -
  have "take_bit sc (idx OR push_bit sc w) = take_bit sc idx"
    by (rule bit_eqI) (auto simp: bit_simps)
  then show ?thesis using assms by simp
qed

lemma pack_fits:
  assumes "take_bit sc (idx::int32) = idx" and "take_bit 6 w = w"
  shows "take_bit (sc + 6) (idx OR push_bit sc w) = idx OR push_bit sc w"
proof -
  have i: "bit idx j \<Longrightarrow> j < sc" for j
    using assms(1) by (metis bit_take_bit_iff)
  have w: "bit w j \<Longrightarrow> j < 6" for j
    using assms(2) by (metis bit_take_bit_iff)
  show ?thesis
    by (rule bit_eqI) (auto simp: bit_simps dest: i w)
qed

lemma pack_field:
  assumes "take_bit sc (idx::int32) = idx" and "take_bit 6 w = w" and "sc + 6 \<le> 32"
  shows "take_bit 6 (drop_bit sc (idx OR push_bit sc w)) = w"
proof -
  have i: "bit idx j \<Longrightarrow> j < sc" for j
    using assms(1) by (metis bit_take_bit_iff)
  have w: "bit w j \<Longrightarrow> j < 6" for j
    using assms(2) by (metis bit_take_bit_iff)
  show ?thesis
    using assms(3) by (intro bit_eqI) (auto simp: bit_simps dest: i w)
qed

lemma field_of_low:
  "take_bit 6 (drop_bit sc (take_bit (sc + 6) (x::int32))) = take_bit 6 (drop_bit sc x)"
  by (rule bit_eqI) (auto simp: bit_simps)

lemma field_of_mask:
  assumes "1 + 6 * k + 6 \<le> 6 * n + 1" and "6 * n + 1 \<le> 32"
  shows "take_bit 6 (drop_bit (1 + 6 * k) (mask (6 * n + 1) :: int32)) = 63"
proof -
  have m: "(63::int32) = mask 6" by (simp add: mask_eq_exp_minus_1)
  show ?thesis
    unfolding m using assms by (intro bit_eqI) (auto simp: bit_simps)
qed

lemma position_to_index_loop_fields:
  assumes "d = num_mobiles tb - piece" and "piece \<le> num_mobiles tb" and "num_mobiles tb \<le> 5"
    and "sc = 1 + 6 * piece" and "take_bit sc idx = idx"
    and "\<forall>k<num_mobiles tb. 0 \<le> mobile_piece_position pos ! k
                              \<and> mobile_piece_position pos ! k < 64"
  shows "take_bit sc (position_to_index_loop tb pos piece sc idx) = idx
       \<and> (\<forall>k. piece \<le> k \<and> k < num_mobiles tb \<longrightarrow>
             take_bit 6 (drop_bit (1 + 6 * k) (position_to_index_loop tb pos piece sc idx))
               = word_of_int (mobile_piece_position pos ! k))"
  using assms
proof (induction d arbitrary: piece sc idx)
  case 0
  then have "piece = num_mobiles tb" by simp
  then have "position_to_index_loop tb pos piece sc idx = idx"
    by (subst position_to_index_loop.simps) simp
  then show ?case using "0.prems" by auto
next
  case (Suc d)
  let ?w = "word_of_int (mobile_piece_position pos ! piece) :: int32"
  let ?idx = "idx OR push_bit sc ?w"
  let ?R = "position_to_index_loop tb pos (piece + 1) (sc + 6) ?idx"
  have lt: "piece < num_mobiles tb" using Suc.prems by simp
  have res: "position_to_index_loop tb pos piece sc idx = ?R"
    using lt by (subst position_to_index_loop.simps) simp
  have w: "take_bit 6 ?w = ?w"
    using Suc.prems(6) lt by (intro field_fits) simp_all
  have fits: "take_bit (sc + 6) ?idx = ?idx"
    using Suc.prems(5) w by (rule pack_fits)
  have sc32: "sc + 6 \<le> 32" using Suc.prems(3,4) lt by simp
  have ih: "take_bit (sc + 6) ?R = ?idx
       \<and> (\<forall>k. piece + 1 \<le> k \<and> k < num_mobiles tb \<longrightarrow>
             take_bit 6 (drop_bit (1 + 6 * k) ?R) = word_of_int (mobile_piece_position pos ! k))"
    using Suc.prems lt fits by (intro Suc.IH) simp_all
  have low: "take_bit sc ?R = idx"
  proof -
    have "take_bit sc ?R = take_bit sc (take_bit (sc + 6) ?R)"
      by (simp add: min_def)
    also have "\<dots> = take_bit sc ?idx" using ih by simp
    also have "\<dots> = idx" using Suc.prems(5) by (rule pack_keeps_low)
    finally show ?thesis .
  qed
  have field: "take_bit 6 (drop_bit sc ?R) = ?w"
  proof -
    have "take_bit 6 (drop_bit sc ?R) = take_bit 6 (drop_bit sc (take_bit (sc + 6) ?R))"
      by (rule field_of_low[symmetric])
    also have "\<dots> = take_bit 6 (drop_bit sc ?idx)" using ih by simp
    also have "\<dots> = ?w" using Suc.prems(5) w sc32 by (rule pack_field)
    finally show ?thesis .
  qed
  have "take_bit 6 (drop_bit (1 + 6 * k) ?R) = word_of_int (mobile_piece_position pos ! k)"
    if k: "piece \<le> k \<and> k < num_mobiles tb" for k
  proof (cases "k = piece")
    case True
    then show ?thesis using field Suc.prems(4) by simp
  next
    case False
    then show ?thesis using ih k by simp
  qed
  then show ?case unfolding res using low by blast
qed

lemma position_to_index_fields:
  assumes "num_mobiles tb \<le> 5"
    and "\<forall>k<num_mobiles tb. 0 \<le> mobile_piece_position pos ! k
                              \<and> mobile_piece_position pos ! k < 64"
    and "k < num_mobiles tb"
  shows "take_bit 6 (drop_bit (1 + 6 * k) (position_to_index tb pos))
           = word_of_int (mobile_piece_position pos ! k)"
proof -
  have "take_bit 1 (color_number (side_to_move pos)) = color_number (side_to_move pos)"
    by (cases "side_to_move pos") (simp_all add: color_number_def)
  then show ?thesis
    unfolding position_to_index_def
    using position_to_index_loop_fields[of "num_mobiles tb" tb 0 1
        "color_number (side_to_move pos)" pos] assms
    by simp
qed

lemma position_to_index_max:
  assumes "num_mobiles tb \<le> 5"
    and "\<forall>k<num_mobiles tb. 0 \<le> mobile_piece_position pos ! k
                              \<and> mobile_piece_position pos ! k < 64"
    and "position_to_index tb pos = max_index tb"
    and "k < num_mobiles tb"
  shows "mobile_piece_position pos ! k = 63"
proof -
  let ?x = "mobile_piece_position pos ! k"
  have "(word_of_int ?x :: int32) = take_bit 6 (drop_bit (1 + 6 * k) (max_index tb))"
    using position_to_index_fields[OF assms(1,2,4)] assms(3) by simp
  also have "\<dots> = 63"
    unfolding max_index_mask using assms(1,4) by (intro field_of_mask) simp_all
  finally have "uint (word_of_int ?x :: int32) = 63" by simp
  moreover have "uint (word_of_int ?x :: int32) = ?x"
  proof -
    have "0 \<le> ?x" "?x < 64" using assms(2,4) by simp_all
    then have "?x mod 4294967296 = ?x" by simp
    then show ?thesis by (simp add: uint_word_of_int)
  qed
  ultimately show ?thesis by simp
qed

lemma take_bit_le_mask:
  assumes "take_bit m (w::int32) = w"
  shows "w \<le> mask m"
proof -
  have "w AND mask m \<le> mask m" by (rule word_and_le1)
  then show ?thesis using assms by (simp add: take_bit_eq_mask)
qed

lemma position_to_index_loop_fits:
  assumes "d = num_mobiles tb - piece" and "piece \<le> num_mobiles tb"
    and "sc = 1 + 6 * piece" and "take_bit sc idx = idx"
    and "\<forall>k<num_mobiles tb. 0 \<le> mobile_piece_position pos ! k
                              \<and> mobile_piece_position pos ! k < 64"
  shows "take_bit (1 + 6 * num_mobiles tb) (position_to_index_loop tb pos piece sc idx)
           = position_to_index_loop tb pos piece sc idx"
  using assms
proof (induction d arbitrary: piece sc idx)
  case 0
  then have "piece = num_mobiles tb" by simp
  then have "position_to_index_loop tb pos piece sc idx = idx"
    by (subst position_to_index_loop.simps) simp
  then show ?case using "0.prems" \<open>piece = num_mobiles tb\<close> by simp
next
  case (Suc d)
  let ?w = "word_of_int (mobile_piece_position pos ! piece) :: int32"
  let ?idx = "idx OR push_bit sc ?w"
  have lt: "piece < num_mobiles tb" using Suc.prems by simp
  have res: "position_to_index_loop tb pos piece sc idx
               = position_to_index_loop tb pos (piece + 1) (sc + 6) ?idx"
    using lt by (subst position_to_index_loop.simps) simp
  have w: "take_bit 6 ?w = ?w"
    using Suc.prems(5) lt by (intro field_fits) simp_all
  have fits: "take_bit (sc + 6) ?idx = ?idx"
    using Suc.prems(4) w by (rule pack_fits)
  show ?case
    unfolding res using Suc.prems lt fits by (intro Suc.IH) simp_all
qed

lemma position_to_index_le_max:
  assumes "\<forall>k<num_mobiles tb. 0 \<le> mobile_piece_position pos ! k
                              \<and> mobile_piece_position pos ! k < 64"
  shows "position_to_index tb pos \<le> max_index tb"
proof -
  have "take_bit 1 (color_number (side_to_move pos)) = color_number (side_to_move pos)"
    by (cases "side_to_move pos") (simp_all add: color_number_def)
  then have "take_bit (1 + 6 * num_mobiles tb) (position_to_index tb pos) = position_to_index tb pos"
    unfolding position_to_index_def
    using assms by (intro position_to_index_loop_fits[of "num_mobiles tb"]) simp_all
  then have "position_to_index tb pos \<le> mask (1 + 6 * num_mobiles tb)"
    by (rule take_bit_le_mask)
  then show ?thesis by (simp add: max_index_mask add.commute)
qed

lemma position_to_index_all_63:
  assumes "num_mobiles tb \<le> 5"
  shows "position_to_index tb
           (zero_position\<lparr>side_to_move := BLACK,
                           mobile_piece_position := replicate MAX_MOBILES 63\<rparr>)
         = max_index tb"
proof -
  let ?pos = "zero_position\<lparr>side_to_move := BLACK,
                           mobile_piece_position := replicate MAX_MOBILES 63\<rparr>"
  let ?i = "max_index tb"
  have m: "(63::int32) = mask 6" by (simp add: mask_eq_exp_minus_1)
  have sq: "\<forall>k. 0 \<le> k \<and> k < num_mobiles tb \<longrightarrow>
      mobile_piece_position ?pos ! k = int (unat (drop_bit (1 + 6 * k) ?i AND 63))"
  proof (intro allI impI)
    fix k assume k: "0 \<le> k \<and> k < num_mobiles tb"
    have "take_bit 6 (drop_bit (1 + 6 * k) (mask (6 * num_mobiles tb + 1) :: int32)) = 63"
      using k assms by (intro field_of_mask) simp_all
    then have "drop_bit (1 + 6 * k) ?i AND 63 = 63"
      unfolding max_index_mask by (simp add: take_bit_eq_mask m)
    moreover have "k < MAX_MOBILES" using k assms by (simp add: MAX_MOBILES_def)
    ultimately show "mobile_piece_position ?pos ! k = int (unat (drop_bit (1 + 6 * k) ?i AND 63))"
      by simp
  qed
  have t: "take_bit 1 ?i = 1"
    unfolding max_index_mask by (rule bit_eqI) (auto simp: bit_simps)
  have c: "color_number (side_to_move ?pos) = 1"
    by (simp add: color_number_def)
  have one: "color_number (side_to_move ?pos) = take_bit 1 ?i"
    by (simp only: t c)
  have "position_to_index tb ?pos = take_bit (1 + 6 * num_mobiles tb) ?i"
    unfolding position_to_index_def
    by (rule position_to_index_loop_pack[OF sq _ _ one]) simp_all
  also have "\<dots> = ?i"
    by (simp add: max_index_mask add.commute)
  finally show ?thesis .
qed

lemma max_index_uint:
  assumes "num_mobiles tb \<le> 5"
  shows "uint (max_index tb) = 2 * 64 ^ num_mobiles tb - 1"
proof -
  have "6 * num_mobiles tb + 1 < 32" using assms by simp
  then have "uint (max_index tb) = 2 ^ (6 * num_mobiles tb + 1) - 1"
    unfolding max_index_mask by (rule uint_mask_small)
  also have "(2::int) ^ (6 * num_mobiles tb + 1) = 2 * 64 ^ num_mobiles tb"
    by (simp add: power_mult)
  finally show ?thesis .
qed

text \<open>
  C4, as the claim states it, fails: for the K+Q vs K table (three mobile pieces)
  \<open>max_index\<close> is 524287, not \<open>2 * 64 ^ 3 = 524288\<close>.
\<close>

theorem max_index_counterexample:
  "num_mobiles create_tablebase = 3
   \<and> uint (max_index create_tablebase) \<noteq> 2 * 64 ^ num_mobiles create_tablebase"
  by (simp add: max_index_def create_tablebase_def)

text \<open>
  C4 (amended): for a tablebase with at most four mobile pieces (so that
  \<open>2<<(6*num_mobiles)\<close> fits an \<open>int\<close>), \<open>max_index\<close> is \<open>2 * 64 ^ num_mobiles - 1\<close>;
  it is the largest index that \<open>position_to_index\<close> returns for a position whose squares
  are in 0..63, and the index of the position with black to move and every piece on
  square 63.
\<close>

theorem max_index_value:
  assumes "num_mobiles tb \<le> 4"
  shows "uint (max_index tb) = 2 * 64 ^ num_mobiles tb - 1
       \<and> (\<forall>pos. (\<forall>k<num_mobiles tb. 0 \<le> mobile_piece_position pos ! k
                                      \<and> mobile_piece_position pos ! k \<le> 63) \<longrightarrow>
                  position_to_index tb pos \<le> max_index tb)
       \<and> position_to_index tb
           (zero_position\<lparr>side_to_move := BLACK,
                           mobile_piece_position := replicate MAX_MOBILES 63\<rparr>)
         = max_index tb"
proof (intro conjI allI impI)
  show "uint (max_index tb) = 2 * 64 ^ num_mobiles tb - 1"
    using assms by (intro max_index_uint) simp
  show "position_to_index tb
           (zero_position\<lparr>side_to_move := BLACK,
                           mobile_piece_position := replicate MAX_MOBILES 63\<rparr>)
         = max_index tb"
    using assms by (intro position_to_index_all_63) simp
next
  fix pos :: position
  assume "\<forall>k<num_mobiles tb. 0 \<le> mobile_piece_position pos ! k
                                      \<and> mobile_piece_position pos ! k \<le> 63"
  then have "\<forall>k<num_mobiles tb. 0 \<le> mobile_piece_position pos ! k
                                      \<and> mobile_piece_position pos ! k < 64"
    by auto
  then show "position_to_index tb pos \<le> max_index tb"
    by (rule position_to_index_le_max)
qed

text \<open>C4 (amended), for the K+Q vs K table.\<close>

theorem max_index_value_witness:
  "num_mobiles create_tablebase \<le> 4 \<and> uint (max_index create_tablebase) = 524287
   \<and> position_to_index create_tablebase
        (zero_position\<lparr>side_to_move := WHITE,
                        mobile_piece_position := [2, 32, 0, 0, 0, 0, 0, 0]\<rparr>)
       \<le> max_index create_tablebase
   \<and> position_to_index create_tablebase
        (zero_position\<lparr>side_to_move := BLACK,
                        mobile_piece_position := replicate MAX_MOBILES 63\<rparr>) = 524287"
proof -
  have n: "num_mobiles create_tablebase \<le> 4" by (simp add: create_tablebase_def)
  have v: "uint (max_index create_tablebase) = 524287 \<and> max_index create_tablebase = 524287"
    by (simp add: max_index_def create_tablebase_def)
  have r: "\<forall>k<num_mobiles create_tablebase.
      0 \<le> mobile_piece_position (zero_position\<lparr>side_to_move := WHITE,
                        mobile_piece_position := [2, 32, 0, 0, 0, 0, 0, 0]\<rparr>) ! k
      \<and> mobile_piece_position (zero_position\<lparr>side_to_move := WHITE,
                        mobile_piece_position := [2, 32, 0, 0, 0, 0, 0, 0]\<rparr>) ! k \<le> 63"
    by (simp add: create_tablebase_def nth_Cons split: nat.split)
  show ?thesis
    using max_index_value[OF n] n v r by simp
qed

text \<open>
  C3: for a tablebase (with at most \<open>MAX_MOBILES\<close> mobile pieces, the size of the
  arrays) and an index up to \<open>max_index\<close>, if \<open>index_to_position\<close> succeeds then
  \<open>position_to_index\<close> of the position it filled in is the index.
\<close>

theorem position_to_index_of_index_to_position:
  assumes "num_mobiles tb \<le> MAX_MOBILES"
    and "index \<le> max_index tb"
    and "index_to_position tb index = (True, p)"
  shows "position_to_index tb p = index"
proof -
  let ?p0 = "zero_position\<lparr>side_to_move := color_of (index AND 1)\<rparr>"
  have dec: "index_to_position_loop tb 0 (drop_bit 1 index) ?p0 = (True, p)"
    using assms(3) by (simp add: index_to_position_def)
  have len: "length (mobile_piece_position ?p0) = MAX_MOBILES"
    by (simp add: zero_position_def)
  note sq = index_to_position_loop_squares[OF dec]
  have side: "side_to_move p = color_of (index AND 1)" using sq by simp
  have squares: "\<forall>k. 0 \<le> k \<and> k < num_mobiles tb \<longrightarrow>
      mobile_piece_position p ! k = int (unat (drop_bit (1 + 6 * k) index AND 63))"
  proof (intro allI impI)
    fix k assume k: "0 \<le> k \<and> k < num_mobiles tb"
    then have "k < length (mobile_piece_position ?p0)" using assms(1) len by simp
    then have "mobile_piece_position p ! k = int (unat (drop_bit (6 * (k - 0)) (drop_bit 1 index) AND 63))"
      using sq k by blast
    then show "mobile_piece_position p ! k = int (unat (drop_bit (1 + 6 * k) index AND 63))"
      by (simp add: add.commute)
  qed
  have "position_to_index tb p = take_bit (1 + 6 * num_mobiles tb) index"
    unfolding position_to_index_def side
    by (rule position_to_index_loop_pack[OF squares]) (simp_all add: color_number_of_bit)
  also have "\<dots> = index"
    using assms(2) by (simp add: max_index_mask le_mask_take_bit add.commute)
  finally show ?thesis .
qed

text \<open>C3, for the K+Q vs K table at index 4100: white king on c1, black king on a5,
  white queen on a1, white to move.\<close>

theorem position_to_index_of_index_to_position_witness:
  "fst (index_to_position create_tablebase 4100)
   \<and> mobile_piece_position (snd (index_to_position create_tablebase 4100))
        = [2, 32, 0, 0, 0, 0, 0, 0]
   \<and> position_to_index create_tablebase (snd (index_to_position create_tablebase 4100)) = 4100"
proof -
  have d: "index_to_position create_tablebase 4100
      = (True, \<lparr>board_vector = 4294967301, white_vector = 5, black_vector = 4294967296,
           side_to_move = WHITE, mobile_piece_position = [2, 32, 0, 0, 0, 0, 0, 0]\<rparr>)"
    by code_simp
  have n: "num_mobiles create_tablebase \<le> MAX_MOBILES"
    by (simp add: create_tablebase_def MAX_MOBILES_def)
  have m: "(4100::int32) \<le> max_index create_tablebase"
    by (simp add: max_index_def create_tablebase_def)
  show ?thesis
    using position_to_index_of_index_to_position[OF n m d] d by simp
qed

subsection \<open>The movement table\<close>

lemma movement_loop_slide:
  assumes step: "\<And>cs row m. movement_case (movementdir piece dir) sq dir m (cs, row)
                    = slide (T cs) D m (cs, row)"
    and "n = maximum_movements_in_one_direction piece - mvmt"
    and "mvmt \<le> maximum_movements_in_one_direction piece"
    and "maximum_movements_in_one_direction piece < length row"
    and "j < length row"
  shows "movement_loop piece sq dir mvmt (cs, row) ! j =
           (if j < mvmt then row ! j
            else if j < maximum_movements_in_one_direction piece
            then slot (walk T D (j - mvmt + 1) cs)
            else if j = maximum_movements_in_one_direction piece then end_of_list
            else row ! j)"
  using assms(2-)
proof (induction n arbitrary: mvmt cs row)
  case 0
  then have "mvmt = maximum_movements_in_one_direction piece" by simp
  then show ?case
    using "0.prems" by (subst movement_loop.simps) (auto simp: nth_list_update)
next
  case (Suc n)
  let ?mx = "maximum_movements_in_one_direction piece"
  have lt: "mvmt < ?mx" using Suc.prems by simp
  have unfold: "movement_loop piece sq dir mvmt (cs, row)
      = movement_loop piece sq dir (mvmt + 1) (slide (T cs) D mvmt (cs, row))"
    using lt by (subst movement_loop.simps) (simp add: step)
  show ?case
  proof (cases "T cs")
    case True
    let ?row = "row[mvmt := movement_to (cs + D)]"
    have st: "slide (T cs) D mvmt (cs, row) = (cs + D, ?row)"
      using True by (simp add: slide_def)
    have ih: "movement_loop piece sq dir (mvmt + 1) (cs + D, ?row) ! j =
           (if j < mvmt + 1 then ?row ! j
            else if j < ?mx then slot (walk T D (j - (mvmt + 1) + 1) (cs + D))
            else if j = ?mx then end_of_list
            else ?row ! j)"
      using Suc.prems lt by (intro Suc.IH) simp_all
    have w: "walk T D (j - mvmt + 1) cs = walk T D (j - (mvmt + 1) + 1) (cs + D)" if "mvmt < j"
    proof -
      have "j - mvmt + 1 = Suc (j - (mvmt + 1) + 1)" using that by simp
      then show ?thesis using True by simp
    qed
    show ?thesis
      unfolding unfold st ih
      using True Suc.prems lt w by (auto simp: nth_list_update slot_def)
  next
    case False
    let ?row = "row[mvmt := end_of_list]"
    have st: "slide (T cs) D mvmt (cs, row) = (cs, ?row)"
      using False by (simp add: slide_def)
    have ih: "movement_loop piece sq dir (mvmt + 1) (cs, ?row) ! j =
           (if j < mvmt + 1 then ?row ! j
            else if j < ?mx then slot (walk T D (j - (mvmt + 1) + 1) cs)
            else if j = ?mx then end_of_list
            else ?row ! j)"
      using Suc.prems lt by (intro Suc.IH) simp_all
    have w: "walk T D (Suc k) cs = None" for k
      using False by simp
    have w2: "walk T D (j - mvmt + 1) cs = None" "walk T D (j - (mvmt + 1) + 1) cs = None"
      using w[of "j - mvmt"] w[of "j - (mvmt + 1)"] by simp_all
    show ?thesis
      unfolding unfold st ih w2
      using Suc.prems lt by (auto simp: nth_list_update slot_def)
  qed
qed

lemma allones_and [simp]: "allones_bitvector AND v = v"
proof -
  have "allones_bitvector = - 1" by (simp add: allones_bitvector_def)
  then show ?thesis by (metis and.left_neutral)
qed

lemma bitvector_nonzero: "sq < 64 \<Longrightarrow> bitvector sq \<noteq> 0"
proof -
  assume "sq < 64"
  then have "bit (bitvector sq) sq" by (simp add: bitvector_def bit_simps)
  then show ?thesis by auto
qed

lemma bitvector_and: "a < 64 \<Longrightarrow> b < 64 \<Longrightarrow> (bitvector a AND bitvector b = 0) = (a \<noteq> b)"
  unfolding bitvector_def
  by (auto simp: bit_eq_iff bit_simps)

lemma ray_stop_char:
  assumes "row ! n = end_of_list" and "n < length row" and "v \<noteq> 0"
  shows "\<exists>i\<le>n. ray_stop v row = Some (row ! i) \<and> vector (row ! i) AND v \<noteq> 0
           \<and> (\<forall>j<i. vector (row ! j) AND v = 0) \<and> ray_passed v row = take i row"
proof -
  let ?P = "\<lambda>m. vector m AND v = 0"
  let ?i = "length (takeWhile ?P row)"
  have stop: "\<not> ?P (row ! n)"
    using assms(1,3) by (simp add: end_of_list_def)
  have le: "?i \<le> n"
  proof (rule ccontr)
    assume "\<not> ?i \<le> n"
    then have "n < ?i" by simp
    then have "row ! n \<in> set (takeWhile ?P row)"
      using nth_mem[of n "takeWhile ?P row"] by (simp add: takeWhile_nth)
    then have "?P (row ! n)" using set_takeWhileD by fast
    with stop show False by simp
  qed
  then have lt: "?i < length row" using assms(2) by simp
  have "dropWhile ?P row = drop ?i row" by (rule dropWhile_eq_drop)
  also have "\<dots> = row ! ?i # drop (Suc ?i) row" using lt by (simp add: Cons_nth_drop_Suc)
  finally have s: "ray_stop v row = Some (row ! ?i)" by (simp add: ray_stop_def)
  have hit: "\<not> ?P (row ! ?i)" using lt by (rule nth_length_takeWhile)
  have before: "?P (row ! j)" if "j < ?i" for j
  proof -
    have "row ! j \<in> set (takeWhile ?P row)"
      using that nth_mem[of j "takeWhile ?P row"] by (simp add: takeWhile_nth)
    then show ?thesis using set_takeWhileD by fast
  qed
  have "ray_passed v row = take ?i row"
    unfolding ray_passed_def by (rule takeWhile_eq_take)
  with le s hit before show ?thesis by blast
qed

lemmas edge_defs = RIGHT_MOVEMENT_POSSIBLE_def RIGHT2_MOVEMENT_POSSIBLE_def
  LEFT_MOVEMENT_POSSIBLE_def LEFT2_MOVEMENT_POSSIBLE_def UP_MOVEMENT_POSSIBLE_def
  UP2_MOVEMENT_POSSIBLE_def DOWN_MOVEMENT_POSSIBLE_def DOWN2_MOVEMENT_POSSIBLE_def

lemma dir_cases:
  "dir < 8 \<Longrightarrow> dir = 0 \<or> dir = 1 \<or> dir = 2 \<or> dir = 3 \<or> dir = 4 \<or> dir = 5 \<or> dir = 6 \<or> dir = (7::nat)"
  by arith

lemma dir4_cases: "dir < 4 \<Longrightarrow> dir = 0 \<or> dir = 1 \<or> dir = 2 \<or> dir = (3::nat)"
  by arith

lemma movement_case_sliding:
  "sliding d \<Longrightarrow> movement_case d sq dir m (cs, row) = slide (slide_test d cs) (slide_delta d) m (cs, row)"
  by (cases d) (simp_all add: sliding_def)

lemma movementdir_sliding:
  assumes "piece \<in> {KING, QUEEN, ROOK, BISHOP}" and "dir < number_of_movement_directions piece"
  shows "sliding (movementdir piece dir)"
  using assms
  by (auto simp: number_of_movement_directions_def movementdir_def sliding_def
      dest!: dir_cases dir4_cases)

lemma length_zero_row [simp]: "length zero_row = 8"
  by (simp add: zero_row_def NUM_MOVEMENTS_def)

lemma zero_row_nth [simp]: "j < 8 \<Longrightarrow> zero_row ! j = zero_movement"
  by (simp add: zero_row_def NUM_MOVEMENTS_def)

lemma maximum_movements_le: "maximum_movements_in_one_direction piece < 8"
  by (cases piece) (simp_all add: maximum_movements_in_one_direction_def)

lemma knight_row:
  assumes "dir < 8"
  shows "movements KNIGHT A dir
      = (jump (knight_test dir (int A)) (int A + knight_delta dir) zero_row)[1 := end_of_list]"
proof -
  have mx: "maximum_movements_in_one_direction KNIGHT = 1"
    by (simp add: maximum_movements_in_one_direction_def)
  have md: "movementdir KNIGHT dir = KNIGHTmove"
    using dir_cases[OF assms] by (auto simp: movementdir_def)
  have "movements KNIGHT A dir = movement_loop KNIGHT (int A) dir 0 (int A, zero_row)"
    using assms by (simp add: movements_def number_of_movement_directions_def)
  also have "\<dots> = movement_loop KNIGHT (int A) dir 1
                      (movement_case KNIGHTmove (int A) dir 0 (int A, zero_row))"
    by (subst movement_loop.simps) (simp add: mx md)
  also have "\<dots> = (snd (movement_case KNIGHTmove (int A) dir 0 (int A, zero_row)))
                      [1 := end_of_list]"
    by (subst movement_loop.simps) (simp add: mx)
  also have "snd (movement_case KNIGHTmove (int A) dir 0 (int A, zero_row))
      = jump (knight_test dir (int A)) (int A + knight_delta dir) zero_row"
    using dir_cases[OF assms] by (elim disjE) (simp_all add: knight_test_def knight_delta_def add.commute)
  finally show ?thesis .
qed

lemma knight_row_nth:
  assumes "dir < 8" and "j < 8"
  shows "movements KNIGHT A dir ! j =
           (if j < 1
            then slot (walk (knight_test dir) (knight_delta dir) (j + 1) (int A))
            else if j = 1 then end_of_list
            else zero_movement)"
proof -
  have j: "j = 0 \<or> j = 1 \<or> (1 < j \<and> j < 8)" using assms(2) by arith
  show ?thesis
    unfolding knight_row[OF assms(1)]
    using j by (cases "knight_test dir (int A)") (auto simp: jump_def slot_def)
qed

lemma knight_movements_nth:
  assumes "dir < 8" and "j < 8"
  shows "movements KNIGHT A dir ! j =
           (if j < maximum_movements_in_one_direction KNIGHT
            then slot (walk (move_test KNIGHT dir) (move_delta KNIGHT dir) (j + 1) (int A))
            else if j = maximum_movements_in_one_direction KNIGHT then end_of_list
            else zero_movement)"
proof -
  have mx: "maximum_movements_in_one_direction KNIGHT = 1"
    by (simp add: maximum_movements_in_one_direction_def)
  have mt: "move_test KNIGHT dir = knight_test dir" "move_delta KNIGHT dir = knight_delta dir"
    by (simp_all add: move_test_def move_delta_def fun_eq_iff)
  show ?thesis
    unfolding mx mt by (rule knight_row_nth[OF assms])
qed

lemma movements_nth:
  assumes "piece \<noteq> PAWN" and "piece \<noteq> PAWNep"
    and "dir < number_of_movement_directions piece" and "j < 8"
  shows "movements piece A dir ! j =
           (if j < maximum_movements_in_one_direction piece
            then slot (walk (move_test piece dir) (move_delta piece dir) (j + 1) (int A))
            else if j = maximum_movements_in_one_direction piece then end_of_list
            else zero_movement)"
proof (cases "piece = KNIGHT")
  case True
  have d: "dir < 8" using assms(3) True by (simp add: number_of_movement_directions_def)
  from knight_movements_nth[OF d assms(4), of A] show ?thesis
    by (simp only: True)
next
  case False
  then have p: "piece \<in> {KING, QUEEN, ROOK, BISHOP}"
    using assms(1,2) by (cases piece) simp_all
  have sl: "sliding (movementdir piece dir)"
    using p assms(3) by (rule movementdir_sliding)
  have mt: "move_test piece dir = slide_test (movementdir piece dir)"
    "move_delta piece dir = slide_delta (movementdir piece dir)"
    using False by (simp_all add: move_test_def move_delta_def fun_eq_iff)
  have step: "\<And>cs row m. movement_case (movementdir piece dir) (int A) dir m (cs, row)
                    = slide (move_test piece dir cs) (move_delta piece dir) m (cs, row)"
    unfolding mt by (rule movement_case_sliding[OF sl])
  have "movement_loop piece (int A) dir 0 (int A, zero_row) ! j =
           (if j < 0 then zero_row ! j
            else if j < maximum_movements_in_one_direction piece
            then slot (walk (move_test piece dir) (move_delta piece dir) (j - 0 + 1) (int A))
            else if j = maximum_movements_in_one_direction piece then end_of_list
            else zero_row ! j)"
  proof (rule movement_loop_slide[OF step])
    show "maximum_movements_in_one_direction piece = maximum_movements_in_one_direction piece - 0"
      by simp
    show "0 \<le> maximum_movements_in_one_direction piece" by simp
    show "maximum_movements_in_one_direction piece < length zero_row"
      using maximum_movements_le[of piece] by simp
    show "j < length zero_row" using assms(4) by simp
  qed
  then have e: "movement_loop piece (int A) dir 0 (int A, zero_row) ! j =
           (if j < maximum_movements_in_one_direction piece
            then slot (walk (move_test piece dir) (move_delta piece dir) (j + 1) (int A))
            else if j = maximum_movements_in_one_direction piece then end_of_list
            else zero_movement)"
    using assms(4) by (simp only: not_less_zero if_False diff_zero zero_row_nth)
  have m: "movements piece A dir = movement_loop piece (int A) dir 0 (int A, zero_row)"
    using assms(3) by (simp only: movements_def if_True)
  show ?thesis
    unfolding m by (rule e)
qed

lemma slide_step_on_board:
  "on_board cs \<Longrightarrow> slide_test d cs \<Longrightarrow> on_board (cs + slide_delta d)"
  unfolding on_board_def edge_defs
  by (cases d) (simp_all add: edge_defs, presburger+)

lemma knight_step_on_board:
  "dir < 8 \<Longrightarrow> on_board cs \<Longrightarrow> knight_test dir cs \<Longrightarrow> on_board (cs + knight_delta dir)"
  unfolding on_board_def
  by (drule dir_cases, elim disjE)
     (simp_all add: knight_test_def knight_delta_def edge_defs, presburger+)

lemma move_step_on_board:
  assumes "piece \<noteq> PAWN" and "piece \<noteq> PAWNep"
    and "dir < number_of_movement_directions piece"
    and "on_board cs" and "move_test piece dir cs"
  shows "on_board (cs + move_delta piece dir)"
proof (cases "piece = KNIGHT")
  case True
  then have "dir < 8" using assms(3) by (simp add: number_of_movement_directions_def)
  then show ?thesis
    using assms(4,5) True knight_step_on_board[of dir cs]
    by (simp add: move_test_def move_delta_def)
next
  case False
  then show ?thesis
    using assms(4,5) slide_step_on_board[of cs "movementdir piece dir"]
    by (simp add: move_test_def move_delta_def)
qed

lemma slide_step_back:
  "on_board cs \<Longrightarrow> slide_test d cs \<Longrightarrow>
     slide_test (opposite_dir d) (cs + slide_delta d)
     \<and> slide_delta (opposite_dir d) = - slide_delta d"
  unfolding on_board_def
  by (cases d) (simp_all add: edge_defs, presburger+)

lemma movementdir_opposite:
  assumes "piece \<in> {KING, QUEEN, ROOK, BISHOP}" and "dir < number_of_movement_directions piece"
  shows "opposite piece dir < number_of_movement_directions piece
       \<and> movementdir piece (opposite piece dir) = opposite_dir (movementdir piece dir)"
  using assms
  by (auto simp: number_of_movement_directions_def movementdir_def opposite_def
      dest!: dir_cases dir4_cases)

lemma knight_step_back:
  "dir < 8 \<Longrightarrow> on_board cs \<Longrightarrow> knight_test dir cs \<Longrightarrow>
     opposite KNIGHT dir < 8
     \<and> knight_test (opposite KNIGHT dir) (cs + knight_delta dir)
     \<and> knight_delta (opposite KNIGHT dir) = - knight_delta dir"
  unfolding on_board_def
  by (drule dir_cases, elim disjE)
     (simp_all add: knight_test_def knight_delta_def opposite_def edge_defs, presburger+)

lemma opposite_less:
  assumes "piece \<noteq> PAWN" and "piece \<noteq> PAWNep"
    and "dir < number_of_movement_directions piece"
  shows "opposite piece dir < number_of_movement_directions piece"
  using assms
  by (cases piece)
     (auto simp: number_of_movement_directions_def opposite_def dest!: dir_cases dir4_cases)

lemma move_step_back:
  assumes "piece \<noteq> PAWN" and "piece \<noteq> PAWNep"
    and "dir < number_of_movement_directions piece"
    and "on_board cs" and "move_test piece dir cs"
  shows "move_test piece (opposite piece dir) (cs + move_delta piece dir)
       \<and> move_delta piece (opposite piece dir) = - move_delta piece dir"
proof (cases "piece = KNIGHT")
  case True
  then have "dir < 8" using assms(3) by (simp add: number_of_movement_directions_def)
  then show ?thesis
    using assms(4,5) True knight_step_back[of dir cs]
    by (simp add: move_test_def move_delta_def)
next
  case False
  then have p: "piece \<in> {KING, QUEEN, ROOK, BISHOP}"
    using assms(1,2) by (cases piece) simp_all
  show ?thesis
    using False assms(4,5) slide_step_back[of cs "movementdir piece dir"]
      movementdir_opposite[OF p assms(3)]
    by (simp add: move_test_def move_delta_def)
qed

lemma walk_snoc:
  "walk T D (Suc k) cs =
     (case walk T D k cs of None \<Rightarrow> None | Some t \<Rightarrow> if T t then Some (t + D) else None)"
proof (induction k arbitrary: cs)
  case 0
  show ?case by simp
next
  case (Suc k)
  have "walk T D (Suc (Suc k)) cs = (if T cs then walk T D (Suc k) (cs + D) else None)"
    by simp
  also have "\<dots> = (if T cs
      then (case walk T D k (cs + D) of None \<Rightarrow> None
            | Some t \<Rightarrow> if T t then Some (t + D) else None)
      else None)"
    by (simp only: Suc.IH)
  also have "\<dots> = (case walk T D (Suc k) cs of None \<Rightarrow> None
                     | Some t \<Rightarrow> if T t then Some (t + D) else None)"
    by simp
  finally show ?case .
qed

lemma walk_prefix:
  "walk T D n cs = Some t \<Longrightarrow> m \<le> n \<Longrightarrow> \<exists>u. walk T D m cs = Some u"
proof (induction n arbitrary: m t)
  case 0
  then show ?case by simp
next
  case (Suc n)
  show ?case
  proof (cases "m = Suc n")
    case True
    then show ?thesis using Suc.prems by simp
  next
    case False
    then have "m \<le> n" using Suc.prems by simp
    moreover obtain v where "walk T D n cs = Some v"
      using Suc.prems(1) unfolding walk_snoc by (auto split: option.splits)
    ultimately show ?thesis using Suc.IH by blast
  qed
qed

lemma walk_on_board:
  assumes safe: "\<And>x. on_board x \<Longrightarrow> T x \<Longrightarrow> on_board (x + D)"
  shows "walk T D n cs = Some t \<Longrightarrow> on_board cs \<Longrightarrow> on_board t"
proof (induction n arbitrary: cs)
  case 0
  then show ?case by simp
next
  case (Suc n)
  then show ?case using safe by (auto split: if_splits)
qed

lemma walk_back:
  assumes rev_step: "\<And>x. on_board x \<Longrightarrow> T x \<Longrightarrow> T' (x + D) \<and> on_board (x + D)"
  shows "walk T D n cs = Some t \<Longrightarrow> on_board cs \<Longrightarrow> walk T' (- D) n t = Some cs"
proof (induction n arbitrary: cs)
  case 0
  then show ?case by simp
next
  case (Suc n)
  from Suc.prems have T: "T cs" and w: "walk T D n (cs + D) = Some t"
    by (auto split: if_splits)
  have "walk T' (- D) n t = Some (cs + D)"
    using Suc.IH[OF w] rev_step[OF Suc.prems(2) T] by simp
  then show ?case
    unfolding walk_snoc[of T' "- D" n t] using rev_step[OF Suc.prems(2) T] by simp
qed

lemma length_jump [simp]: "length (jump possible target row) = length row"
  by (simp add: jump_def)

lemma length_slide [simp]: "length (snd (slide possible delta mvmt st)) = length (snd st)"
  by (cases st) (simp add: slide_def)

lemma length_movement_case:
  "length (snd (movement_case d sq dir m st)) = length (snd st)"
proof (cases st)
  case (Pair cs row)
  show ?thesis
    unfolding Pair by (cases d) (simp_all del: slide_def)
qed

lemma length_movement_loop:
  "length (movement_loop piece sq dir mvmt st) = length (snd st)"
proof (induction piece sq dir mvmt st rule: movement_loop.induct)
  case (1 piece sq dir mvmt st)
  show ?case
  proof (cases "mvmt < maximum_movements_in_one_direction piece")
    case True
    have "movement_loop piece sq dir mvmt st
        = movement_loop piece sq dir (mvmt + 1) (movement_case (movementdir piece dir) sq dir mvmt st)"
      using True by (subst movement_loop.simps) simp
    then show ?thesis
      using "1.IH"[OF True] by (simp only: length_movement_case)
  next
    case False
    then show ?thesis by (subst movement_loop.simps) simp
  qed
qed

lemma length_movements [simp]: "length (movements piece A dir) = 8"
  by (simp add: movements_def length_movement_loop)

lemma movement_to_hit:
  assumes "on_board t" and "B < 64"
  shows "(vector (movement_to t) AND bitvector B \<noteq> 0) = (t = int B)"
proof -
  have "nat t < 64" using assms(1) unfolding on_board_def by linarith
  then have "(bitvector (nat t) AND bitvector B = 0) = (nat t \<noteq> B)"
    using assms(2) by (rule bitvector_and)
  then have "(vector (movement_to t) AND bitvector B \<noteq> 0) = (nat t = B)"
    by (simp add: movement_to_def)
  also have "(nat t = B) = (t = int B)"
    using assms(1) unfolding on_board_def by linarith
  finally show ?thesis .
qed

lemma direction_reaches:
  assumes np: "piece \<noteq> PAWN" "piece \<noteq> PAWNep"
    and dir: "dir < number_of_movement_directions piece"
    and A: "A < 64" and B: "B < 64"
  shows "(case ray_stop (bitvector B) (movements piece A dir) of
            None \<Rightarrow> False | Some m \<Rightarrow> square m = int B)
         = (\<exists>k < maximum_movements_in_one_direction piece.
              walk (move_test piece dir) (move_delta piece dir) (Suc k) (int A) = Some (int B))"
proof -
  let ?mx = "maximum_movements_in_one_direction piece"
  let ?row = "movements piece A dir"
  let ?w = "\<lambda>k. walk (move_test piece dir) (move_delta piece dir) (Suc k) (int A)"
  have mx8: "?mx < 8" by (rule maximum_movements_le)
  have nth: "?row ! j = (if j < ?mx then slot (?w j) else end_of_list)" if "j \<le> ?mx" for j
    using movements_nth[OF np dir, of j A] that mx8 by simp
  have onb: "on_board t" if "?w k = Some t" for k t
  proof (rule walk_on_board[OF _ that])
    show "on_board (int A)" using A by (simp add: on_board_def)
    show "\<And>x. on_board x \<Longrightarrow> move_test piece dir x \<Longrightarrow> on_board (x + move_delta piece dir)"
      using move_step_on_board[OF np dir] by blast
  qed
  have "?row ! ?mx = end_of_list" using nth[of ?mx] by simp
  moreover have "?mx < length ?row" using mx8 by simp
  moreover have "bitvector B \<noteq> 0" using B by (rule bitvector_nonzero)
  ultimately obtain i where i: "i \<le> ?mx" "ray_stop (bitvector B) ?row = Some (?row ! i)"
      "vector (?row ! i) AND bitvector B \<noteq> 0"
      "\<forall>j<i. vector (?row ! j) AND bitvector B = 0"
    using ray_stop_char[of ?row ?mx "bitvector B"] by blast
  show ?thesis
  proof
    assume "case ray_stop (bitvector B) ?row of None \<Rightarrow> False | Some m \<Rightarrow> square m = int B"
    then have sq: "square (?row ! i) = int B" using i(2) by simp
    have "i < ?mx"
    proof (rule ccontr)
      assume "\<not> i < ?mx"
      then have "?row ! i = end_of_list" using nth[OF i(1)] by simp
      then show False using sq by (simp add: end_of_list_def)
    qed
    moreover have "?w i = Some (int B)"
    proof (cases "?w i")
      case None
      then have "?row ! i = end_of_list" using nth[OF i(1)] \<open>i < ?mx\<close> by (simp add: slot_def)
      then show ?thesis using sq by (simp add: end_of_list_def)
    next
      case (Some t)
      then have "?row ! i = movement_to t" using nth[OF i(1)] \<open>i < ?mx\<close> by (simp add: slot_def)
      then show ?thesis using sq Some by (simp add: movement_to_def)
    qed
    ultimately show "\<exists>k < ?mx. ?w k = Some (int B)" by blast
  next
    assume "\<exists>k < ?mx. ?w k = Some (int B)"
    then obtain k where k: "k < ?mx" "?w k = Some (int B)" by blast
    have rk: "?row ! k = movement_to (int B)"
      using nth[of k] k by (simp add: slot_def)
    have "vector (?row ! k) AND bitvector B \<noteq> 0"
      unfolding rk using movement_to_hit[OF onb[OF k(2)] B] by simp
    then have ik: "i \<le> k" using i(4) by (meson not_le)
    then obtain t where t: "?w i = Some t"
      using walk_prefix[OF k(2), of "Suc i"] by auto
    have ri: "?row ! i = movement_to t"
      using nth[OF i(1)] ik k(1) t by (simp add: slot_def)
    have "t = int B"
      using i(3) movement_to_hit[OF onb[OF t] B] unfolding ri by simp
    then have "square (?row ! i) = int B" unfolding ri by (simp add: movement_to_def)
    then show "case ray_stop (bitvector B) ?row of None \<Rightarrow> False | Some m \<Rightarrow> square m = int B"
      using i(2) by simp
  qed
qed

lemma movement_possible_reaches:
  assumes "piece \<noteq> PAWN" and "piece \<noteq> PAWNep" and "A < 64" and "B < 64"
  shows "movement_possible piece A B = reaches piece A B"
proof -
  let ?stops = "\<lambda>dir. case ray_stop (bitvector B) (movements piece A dir) of
                        None \<Rightarrow> False | Some m \<Rightarrow> square m = int B"
  let ?walks = "\<lambda>dir. \<exists>k < maximum_movements_in_one_direction piece.
              walk (move_test piece dir) (move_delta piece dir) (Suc k) (int A) = Some (int B)"
  have e: "?stops dir = ?walks dir" if "dir < number_of_movement_directions piece" for dir
    using that by (rule direction_reaches[OF assms(1,2) _ assms(3,4)])
  have "movement_possible piece A B
          = (\<exists>dir. dir < number_of_movement_directions piece \<and> ?stops dir)"
    unfolding movement_possible_def Bex_def by (simp only: atLeast0LessThan lessThan_iff)
  also have "\<dots> = (\<exists>dir. dir < number_of_movement_directions piece \<and> ?walks dir)"
    using e by blast
  also have "\<dots> = reaches piece A B"
    unfolding reaches_def by blast
  finally show ?thesis .
qed

lemma reaches_sym:
  assumes np: "piece \<noteq> PAWN" "piece \<noteq> PAWNep" and A: "A < 64" and r: "reaches piece A B"
  shows "reaches piece B A"
proof -
  from r obtain dir k where dir: "dir < number_of_movement_directions piece"
    and k: "k < maximum_movements_in_one_direction piece"
    and w: "walk (move_test piece dir) (move_delta piece dir) (Suc k) (int A) = Some (int B)"
    unfolding reaches_def by blast
  let ?o = "opposite piece dir"
  have o: "?o < number_of_movement_directions piece"
    using np dir by (rule opposite_less)
  have step: "move_test piece ?o (x + move_delta piece dir) \<and> on_board (x + move_delta piece dir)"
    if "on_board x" "move_test piece dir x" for x
    using move_step_back[OF np dir that] move_step_on_board[OF np dir that] by simp
  have onA: "on_board (int A)" using A by (simp add: on_board_def)
  have d: "move_delta piece ?o = - move_delta piece dir"
  proof -
    have "move_test piece dir (int A)" using w by (simp split: if_splits)
    then show ?thesis using move_step_back[OF np dir onA] by simp
  qed
  have "walk (move_test piece ?o) (- move_delta piece dir) (Suc k) (int B) = Some (int A)"
    using walk_back[of "move_test piece dir" "move_test piece ?o" "move_delta piece dir", OF _ w onA]
      step by blast
  then have "walk (move_test piece ?o) (move_delta piece ?o) (Suc k) (int B) = Some (int A)"
    by (simp only: d)
  then show ?thesis
    unfolding reaches_def using o k by blast
qed

text \<open>
  C8: for the non-pawn piece kinds and distinct squares A and B, if some direction's ray
  from A reaches B on an otherwise empty board (the scan for B's bit stops at a movement
  whose square is B), then some ray from B reaches A.
\<close>

theorem movement_possible_symmetric:
  assumes "piece \<in> {KING, QUEEN, ROOK, BISHOP, KNIGHT}"
    and "squareA < NUM_SQUARES" and "squareB < NUM_SQUARES" and "squareA \<noteq> squareB"
    and "movement_possible piece squareA squareB"
  shows "movement_possible piece squareB squareA"
proof -
  have np: "piece \<noteq> PAWN" "piece \<noteq> PAWNep" using assms(1) by auto
  have A: "squareA < 64" and B: "squareB < 64" using assms(2,3) by (simp_all add: NUM_SQUARES_def)
  have "reaches piece squareA squareB"
    using assms(5) movement_possible_reaches[OF np A B] by simp
  then have "reaches piece squareB squareA"
    by (rule reaches_sym[OF np A])
  then show ?thesis
    using movement_possible_reaches[OF np B A] by simp
qed

text \<open>C8, for the queen between a1 and h8 and for the knight between b1 and d2.\<close>

theorem movement_possible_symmetric_witness:
  "movement_possible QUEEN 0 63 \<and> movement_possible QUEEN 63 0
   \<and> movement_possible KNIGHT 1 11 \<and> movement_possible KNIGHT 11 1"
proof -
  have q: "movement_possible QUEEN 0 63" by code_simp
  have k: "movement_possible KNIGHT 1 11" by code_simp
  have "movement_possible QUEEN 63 0"
    using movement_possible_symmetric[of QUEEN 0 63] q by (simp add: NUM_SQUARES_def)
  moreover have "movement_possible KNIGHT 11 1"
    using movement_possible_symmetric[of KNIGHT 1 11] k by (simp add: NUM_SQUARES_def)
  ultimately show ?thesis using q k by simp
qed

lemma ex_less_8:
  "(\<exists>dir<8. P (dir::nat)) = (P 0 \<or> P 1 \<or> P 2 \<or> P 3 \<or> P 4 \<or> P 5 \<or> P 6 \<or> P 7)"
proof
  assume "\<exists>dir<8. P dir"
  then obtain dir where "dir < 8" "P dir" by blast
  then show "P 0 \<or> P 1 \<or> P 2 \<or> P 3 \<or> P 4 \<or> P 5 \<or> P 6 \<or> P 7"
    using dir_cases[of dir] by auto
next
  assume a: "P 0 \<or> P 1 \<or> P 2 \<or> P 3 \<or> P 4 \<or> P 5 \<or> P 6 \<or> P 7"
  have h: "k < 8 \<Longrightarrow> P k \<Longrightarrow> \<exists>dir<8. P dir" for k by blast
  show "\<exists>dir<8. P dir"
    using a h[of 0] h[of 1] h[of 2] h[of 3] h[of 4] h[of 5] h[of 6] h[of 7] by auto
qed

lemma knight_reaches:
  "reaches KNIGHT A B = (\<exists>dir<8. knight_test dir (int A) \<and> int A + knight_delta dir = int B)"
proof -
  have mx: "maximum_movements_in_one_direction KNIGHT = 1"
    and nd: "number_of_movement_directions KNIGHT = 8"
    by (simp_all add: maximum_movements_in_one_direction_def number_of_movement_directions_def)
  have one: "(\<exists>k<1. Q (k::nat)) = Q 0" for Q by auto
  have w: "(walk (move_test KNIGHT dir) (move_delta KNIGHT dir) (Suc 0) (int A) = Some (int B))
         = (knight_test dir (int A) \<and> int A + knight_delta dir = int B)" for dir
    by (simp add: move_test_def move_delta_def)
  show ?thesis
    unfolding reaches_def mx nd one w ..
qed

text \<open>
  C9: in the movement table the squares that a knight on b1 (square 1) reaches over all
  eight directions are exactly a3, c3 and d2 (squares 16, 18, 11), and every knight ray
  has at most one movement before the all-ones movement that ends it.
\<close>

theorem knight_on_b1:
  "{squareB. squareB < NUM_SQUARES \<and> movement_possible KNIGHT 1 squareB} = {16, 18, 11}
   \<and> (\<forall>squareA<NUM_SQUARES. \<forall>dir<number_of_movement_directions KNIGHT.
         length (takeWhile (\<lambda>m. m \<noteq> end_of_list) (movements KNIGHT squareA dir)) \<le> 1
         \<and> movements KNIGHT squareA dir
              ! length (takeWhile (\<lambda>m. m \<noteq> end_of_list) (movements KNIGHT squareA dir))
            = end_of_list)"
proof (intro conjI allI impI)
  show "{squareB. squareB < NUM_SQUARES \<and> movement_possible KNIGHT 1 squareB} = {16, 18, 11}"
  proof -
    have "movement_possible KNIGHT 1 B = (B = 16 \<or> B = 18 \<or> B = 11)" if "B < 64" for B
    proof -
      have "movement_possible KNIGHT 1 B = reaches KNIGHT 1 B"
        using that by (intro movement_possible_reaches) simp_all
      also have "\<dots> = (B = 16 \<or> B = 18 \<or> B = 11)"
        unfolding knight_reaches ex_less_8
        by (simp add: knight_test_def knight_delta_def edge_defs) linarith
      finally show ?thesis .
    qed
    then show ?thesis by (auto simp: NUM_SQUARES_def)
  qed
next
  fix squareA dir
  assume "squareA < NUM_SQUARES" and d: "dir < number_of_movement_directions KNIGHT"
  then have d8: "dir < 8" by (simp add: number_of_movement_directions_def)
  let ?row = "movements KNIGHT squareA dir"
  have ne: "movement_to t \<noteq> end_of_list" for t
  proof (cases "t = - 1")
    case True
    then show ?thesis
      by (simp add: movement_to_def end_of_list_def bitvector_def allones_bitvector_def)
  next
    case False
    then show ?thesis by (simp add: movement_to_def end_of_list_def)
  qed
  have row: "?row = (jump (knight_test dir (int squareA)) (int squareA + knight_delta dir) zero_row)
                      [1 := end_of_list]"
    by (rule knight_row[OF d8])
  show "length (takeWhile (\<lambda>m. m \<noteq> end_of_list) ?row) \<le> 1"
    unfolding row using ne
    by (simp add: jump_def zero_row_def NUM_MOVEMENTS_def numeral_eq_Suc)
  show "?row ! length (takeWhile (\<lambda>m. m \<noteq> end_of_list) ?row) = end_of_list"
    unfolding row using ne
    by (simp add: jump_def zero_row_def NUM_MOVEMENTS_def numeral_eq_Suc)
qed

text \<open>C9, read off at b1: a3 is reached, b3 is not, and the ray of direction 0 holds one
  movement (to d2) before its end.\<close>

theorem knight_on_b1_witness:
  "movement_possible KNIGHT 1 16 \<and> \<not> movement_possible KNIGHT 1 17
   \<and> length (takeWhile (\<lambda>m. m \<noteq> end_of_list) (movements KNIGHT 1 0)) \<le> 1
   \<and> movements KNIGHT 1 0 ! length (takeWhile (\<lambda>m. m \<noteq> end_of_list) (movements KNIGHT 1 0))
        = end_of_list"
proof -
  from knight_on_b1
  have s: "{squareB. squareB < NUM_SQUARES \<and> movement_possible KNIGHT 1 squareB} = {16, 18, 11}"
    and r: "\<forall>squareA<NUM_SQUARES. \<forall>dir<number_of_movement_directions KNIGHT.
         length (takeWhile (\<lambda>m. m \<noteq> end_of_list) (movements KNIGHT squareA dir)) \<le> 1
         \<and> movements KNIGHT squareA dir
              ! length (takeWhile (\<lambda>m. m \<noteq> end_of_list) (movements KNIGHT squareA dir))
            = end_of_list"
    by blast+
  have "(16::nat) \<in> {16, 18, 11}" and "(17::nat) \<notin> {16, 18, 11}" by simp_all
  then have "16 \<in> {squareB. squareB < NUM_SQUARES \<and> movement_possible KNIGHT 1 squareB}"
    and "17 \<notin> {squareB. squareB < NUM_SQUARES \<and> movement_possible KNIGHT 1 squareB}"
    unfolding s by simp_all
  then have m: "movement_possible KNIGHT 1 16" "\<not> movement_possible KNIGHT 1 17"
    by (simp_all add: NUM_SQUARES_def)
  have "(1::nat) < NUM_SQUARES" and "0 < number_of_movement_directions KNIGHT"
    by (simp_all add: NUM_SQUARES_def number_of_movement_directions_def)
  then show ?thesis using r m by blast
qed

subsection \<open>Initialization\<close>

lemma or_and_nonzero: "(x::int64) AND y \<noteq> 0 \<Longrightarrow> (x OR z) AND y \<noteq> 0"
  by (simp add: bit.conj_disj_distrib2 or_eq_0_iff)

lemma or_self_and_nonzero: "(y::int64) \<noteq> 0 \<Longrightarrow> (x OR y) AND y \<noteq> 0"
  by (simp add: bit.conj_disj_distrib2 or_eq_0_iff)

lemma nth_list_update_total:
  "xs[i := x] ! j = (if i = j \<and> i < length xs then x else xs ! j)"
  by (cases "i < length xs") (simp_all add: nth_list_update list_update_beyond)

lemma unat_and_63: "unat ((index::int32) AND 63) < 64"
proof -
  have "unat (index AND 63) \<le> unat (63::int32)"
    by (rule word_and_le1 [THEN word_le_nat_alt [THEN iffD1]])
  then show ?thesis by simp
qed

lemma index_to_position_loop_ok:
  assumes "position_ok p"
  shows "position_ok (snd (index_to_position_loop tb piece index p))
       \<and> (board_vector p \<noteq> 0 \<or> piece < num_mobiles tb \<longrightarrow>
            board_vector (snd (index_to_position_loop tb piece index p)) \<noteq> 0)"
  using assms
proof (induction tb piece index p rule: index_to_position_loop.induct)
  case (1 tb piece index p)
  show ?case
  proof (cases "piece < num_mobiles tb")
    case False
    then show ?thesis
      using "1.prems" by (subst (1 2) index_to_position_loop.simps) simp
  next
    case True
    define sq where "sq = unat (index AND 63)"
    define p1 where "p1 = p\<lparr>mobile_piece_position := (mobile_piece_position p)[piece := int sq]\<rparr>"
    define p2 where "p2 = p1\<lparr>board_vector := board_vector p1 OR bitvector sq\<rparr>"
    define p3 where "p3 = (if mobile_piece_color tb ! piece = WHITE
                       then p2\<lparr>white_vector := white_vector p2 OR bitvector sq\<rparr>
                       else p2\<lparr>black_vector := black_vector p2 OR bitvector sq\<rparr>)"
    have sq: "sq < 64" unfolding sq_def by (rule unat_and_63)
    have bsq: "bitvector sq \<noteq> 0" using sq by (rule bitvector_nonzero)
    show ?thesis
    proof (cases "board_vector p1 AND bitvector sq \<noteq> 0")
      case hit: True
      have res: "index_to_position_loop tb piece index p = (False, p1)"
        using True hit
        by (subst index_to_position_loop.simps) (simp add: Let_def sq_def p1_def)
      have "position_ok p1"
        using "1.prems" hit sq
        by (auto simp: position_ok_def p1_def nth_list_update_total)
      moreover have "board_vector p1 \<noteq> 0" using hit by auto
      ultimately show ?thesis unfolding res by simp
    next
      case free: False
      have res: "index_to_position_loop tb piece index p
          = index_to_position_loop tb (piece + 1) (drop_bit 6 index) p3"
        using True free
        by (subst index_to_position_loop.simps)
           (auto simp: Let_def sq_def p1_def p2_def p3_def)
      have b3: "board_vector p3 = board_vector p OR bitvector sq"
        and m3: "mobile_piece_position p3 = (mobile_piece_position p)[piece := int sq]"
        by (simp_all add: p3_def p2_def p1_def)
      have ok3: "position_ok p3"
        unfolding position_ok_def b3 m3
        using "1.prems" sq or_and_nonzero or_self_and_nonzero[OF bsq]
        by (auto simp: position_ok_def nth_list_update_total)
      have nz3: "board_vector p3 \<noteq> 0"
        unfolding b3 using bsq by (simp add: or_eq_0_iff)
      from "1.IH"[OF True sq_def p1_def free p2_def p3_def ok3] nz3
      show ?thesis unfolding res by simp
    qed
  qed
qed

lemma zero_position_ok: "position_ok (zero_position\<lparr>side_to_move := c\<rparr>)"
  by (simp add: position_ok_def zero_position_def)

lemma index_to_position_ok:
  "position_ok (snd (index_to_position tb index))"
  "0 < num_mobiles tb \<Longrightarrow> board_vector (snd (index_to_position tb index)) \<noteq> 0"
  using index_to_position_loop_ok[OF zero_position_ok]
  by (simp_all add: index_to_position_def)

lemma movement_loop_end:
  assumes "mvmt \<le> maximum_movements_in_one_direction piece"
    and "maximum_movements_in_one_direction piece < length (snd st)"
  shows "movement_loop piece sq dir mvmt st ! maximum_movements_in_one_direction piece
           = end_of_list"
  using assms
proof (induction piece sq dir mvmt st rule: movement_loop.induct)
  case (1 piece sq dir mvmt st)
  show ?case
  proof (cases "mvmt < maximum_movements_in_one_direction piece")
    case True
    have "movement_loop piece sq dir mvmt st
        = movement_loop piece sq dir (mvmt + 1) (movement_case (movementdir piece dir) sq dir mvmt st)"
      using True by (subst movement_loop.simps) simp
    then show ?thesis
      using "1.IH"[OF True] True "1.prems"(2) by (simp add: length_movement_case)
  next
    case False
    then have "mvmt = maximum_movements_in_one_direction piece" using "1.prems"(1) by simp
    then show ?thesis
      using "1.prems"(2) by (subst movement_loop.simps) simp
  qed
qed

lemma movements_end:
  assumes "dir < number_of_movement_directions piece"
  shows "movements piece A dir ! maximum_movements_in_one_direction piece = end_of_list"
proof -
  have "movements piece A dir = movement_loop piece (int A) dir 0 (int A, zero_row)"
    using assms by (simp only: movements_def if_True)
  moreover have "maximum_movements_in_one_direction piece < length (snd (int A, zero_row))"
    using maximum_movements_le[of piece] by simp
  ultimately show ?thesis
    using movement_loop_end[of 0 piece "(int A, zero_row)" "int A" dir] by simp
qed

lemma ray_stop_in_row:
  assumes "dir < number_of_movement_directions piece" and "v \<noteq> 0"
  shows "\<exists>m. ray_stop v (movements piece A dir) = Some m"
proof -
  have "maximum_movements_in_one_direction piece < length (movements piece A dir)"
    using maximum_movements_le[of piece] by simp
  then show ?thesis
    using ray_stop_char[OF movements_end[OF assms(1)] _ assms(2), of A] by blast
qed

lemma count_direction_cases:
  assumes "dir < number_of_movement_directions (mobile_piece_type tb ! piece)"
    and "board_vector p \<noteq> 0"
  shows "captures_king tb p piece dir \<Longrightarrow>
           count_direction tb p piece dir count = mated (side_to_move p)"
    and "\<not> captures_king tb p piece dir \<Longrightarrow>
           \<exists>count1. count_direction tb p piece dir count = Counted count1"
proof -
  obtain m where m: "ray_stop (board_vector p)
      (movements (mobile_piece_type tb ! piece) (nat (mobile_piece_position p ! piece)) dir) = Some m"
    using ray_stop_in_row[OF assms] by blast
  show "captures_king tb p piece dir \<Longrightarrow>
           count_direction tb p piece dir count = mated (side_to_move p)"
    unfolding captures_king_def count_direction_def Let_def m
    by (auto simp: mated_def split: if_splits)
  show "\<not> captures_king tb p piece dir \<Longrightarrow>
           \<exists>count1. count_direction tb p piece dir count = Counted count1"
    unfolding captures_king_def count_direction_def Let_def m
    by (auto simp: mated_def split: if_splits)
qed

lemma count_directions_cases:
  assumes "board_vector p \<noteq> 0"
  shows "(king_capture_from tb p piece dir \<longrightarrow>
            count_directions tb p piece dir count = mated (side_to_move p))
       \<and> (\<not> king_capture_from tb p piece dir \<longrightarrow>
            (\<exists>count1. count_directions tb p piece dir count = Counted count1))"
  using assms
proof (induction tb p piece dir count rule: count_directions.induct)
  case (1 tb p piece dir count)
  let ?n = "number_of_movement_directions (mobile_piece_type tb ! piece)"
  show ?case
  proof (cases "dir < ?n")
    case False
    then have "\<not> king_capture_from tb p piece dir"
      by (auto simp: king_capture_from_def)
    moreover have "count_directions tb p piece dir count = Counted count"
      using False by (subst count_directions.simps) simp
    ultimately show ?thesis by simp
  next
    case True
    note cd = count_direction_cases[OF True "1.prems"]
    show ?thesis
    proof (cases "captures_king tb p piece dir")
      case k: True
      have "count_direction tb p piece dir count = mated (side_to_move p)"
        using k by (rule cd(1))
      then have "count_directions tb p piece dir count = mated (side_to_move p)"
        using True by (subst count_directions.simps) (simp add: mated_def)
      moreover have "king_capture_from tb p piece dir"
        unfolding king_capture_from_def using True k by blast
      ultimately show ?thesis by simp
    next
      case k: False
      obtain count1 where c1: "count_direction tb p piece dir count = Counted count1"
        using cd(2)[OF k] by blast
      have res: "count_directions tb p piece dir count
          = count_directions tb p piece (dir + 1) count1"
        using True c1 by (subst count_directions.simps) simp
      have "king_capture_from tb p piece dir = king_capture_from tb p piece (dir + 1)"
        unfolding king_capture_from_def
        using k by (metis Suc_eq_plus1 Suc_leI le_neq_implies_less nat_le_linear not_less_eq_eq)
      then show ?thesis
        unfolding res using "1.IH"[OF True c1 "1.prems"] by simp
    qed
  qed
qed

lemma count_pieces_cases:
  assumes "board_vector p \<noteq> 0"
  shows "(king_capture_by tb p piece \<longrightarrow>
            count_pieces tb p piece count = mated (side_to_move p))
       \<and> (\<not> king_capture_by tb p piece \<longrightarrow>
            (\<exists>count1. count_pieces tb p piece count = Counted count1))"
  using assms
proof (induction tb p piece count rule: count_pieces.induct)
  case (1 tb p piece count)
  show ?case
  proof (cases "piece < num_mobiles tb")
    case False
    then have "\<not> king_capture_by tb p piece"
      by (auto simp: king_capture_by_def)
    moreover have "count_pieces tb p piece count = Counted count"
      using False by (subst count_pieces.simps) simp
    ultimately show ?thesis by simp
  next
    case True
    have shift: "king_capture_by tb p piece = king_capture_by tb p (piece + 1)"
      if "\<not> (mobile_piece_color tb ! piece = side_to_move p \<and> king_capture_from tb p piece 0)"
      unfolding king_capture_by_def
      using that by (metis Suc_eq_plus1 Suc_leI le_neq_implies_less nat_le_linear not_less_eq_eq)
    show ?thesis
    proof (cases "mobile_piece_color tb ! piece \<noteq> side_to_move p")
      case other: True
      have res: "count_pieces tb p piece count = count_pieces tb p (piece + 1) count"
        using True other by (subst count_pieces.simps) simp
      show ?thesis
        unfolding res using shift other "1.IH"(1)[OF True other "1.prems"] by simp
    next
      case own: False
      note cds = count_directions_cases[OF "1.prems", of tb piece 0 count]
      show ?thesis
      proof (cases "king_capture_from tb p piece 0")
        case k: True
        then have "count_directions tb p piece 0 count = mated (side_to_move p)"
          using cds by simp
        then have "count_pieces tb p piece count = mated (side_to_move p)"
          using True own by (subst count_pieces.simps) (simp add: mated_def)
        moreover have "king_capture_by tb p piece"
          unfolding king_capture_by_def using True own k by blast
        ultimately show ?thesis by simp
      next
        case k: False
        then obtain count1 where c1: "count_directions tb p piece 0 count = Counted count1"
          using cds by blast
        have res: "count_pieces tb p piece count = count_pieces tb p (piece + 1) count1"
          using True own c1 by (subst count_pieces.simps) simp
        show ?thesis
          unfolding res using shift k "1.IH"(2)[OF True own c1 "1.prems"] by simp
      qed
    qed
  qed
qed

lemma black_wins_after_mate:
  "movecnt (entries tb index) = PTM_WINS_PROPAGATION_NEEDED \<Longrightarrow>
     fst (black_wins tb index m s) = tb"
  by (simp add: black_wins_def state_defs)

lemma initialize_index_mated:
  assumes "index_to_position tb index = (True, p)"
    and "count_pieces tb p 0 0 = mated (side_to_move p)"
  shows "\<exists>tb1. initialize_index tb index = Some tb1
           \<and> movecnt (entries tb1 index) = PTM_WINS_PROPAGATION_NEEDED
           \<and> mate_in_cnt (entries tb1 index) = 0
           \<and> stalemate_cnt (entries tb1 index) = 0"
proof (cases "side_to_move p = WHITE")
  case True
  then show ?thesis
    using assms
    by (simp add: initialize_index_def mated_def initialize_index_with_black_mated_def set_entry_def)
next
  case False
  let ?tb1 = "set_entry tb index
                  ((entries tb index)\<lparr>movecnt := PTM_WINS_PROPAGATION_NEEDED,
                                        mate_in_cnt := 0, stalemate_cnt := 0\<rparr>)"
  have "fst (black_wins ?tb1 index 0 0) = ?tb1"
    by (rule black_wins_after_mate) (simp add: set_entry_def)
  then show ?thesis
    using assms False
    by (simp add: initialize_index_def mated_def initialize_index_with_white_mated_def Let_def
        set_entry_def)
qed

lemma initialize_index_king_capture:
  assumes "index_to_position tb index = (True, p)"
    and "piece < num_mobiles tb"
    and "mobile_piece_color tb ! piece = side_to_move p"
    and "dir < number_of_movement_directions (mobile_piece_type tb ! piece)"
    and "captures_king tb p piece dir"
  shows "\<exists>tb1. initialize_index tb index = Some tb1
           \<and> movecnt (entries tb1 index) = PTM_WINS_PROPAGATION_NEEDED
           \<and> mate_in_cnt (entries tb1 index) = 0
           \<and> (\<forall>count. count_pieces tb p 0 0 \<noteq> Counted count)"
proof -
  have "0 < num_mobiles tb" using assms(2) by simp
  then have nz: "board_vector p \<noteq> 0"
    using index_to_position_ok(2)[of tb index] assms(1) by simp
  have "king_capture_from tb p piece 0"
    unfolding king_capture_from_def using assms(4,5) by blast
  then have "king_capture_by tb p 0"
    unfolding king_capture_by_def using assms(2,3) by blast
  then have m: "count_pieces tb p 0 0 = mated (side_to_move p)"
    using count_pieces_cases[OF nz, of tb 0 0] by simp
  then have "\<forall>count. count_pieces tb p 0 0 \<noteq> Counted count"
    by (simp add: mated_def)
  then show ?thesis
    using initialize_index_mated[OF assms(1) m] by blast
qed

lemma same_config_refl [simp]: "same_config tb tb"
  by (simp add: same_config_def)

lemma same_config_trans: "same_config a b \<Longrightarrow> same_config b c \<Longrightarrow> same_config a c"
  by (simp add: same_config_def)

lemma same_config_set_entry [simp]: "same_config tb (set_entry tb index e)"
  by (simp add: same_config_def set_entry_def)

lemma same_config_entries: "same_config tb tb1 \<Longrightarrow> tb1 = tb\<lparr>entries := entries tb1\<rparr>"
  by (cases tb; cases tb1) (simp add: same_config_def)

lemma index_to_position_loop_entries:
  "index_to_position_loop (tb\<lparr>entries := e\<rparr>) piece index p = index_to_position_loop tb piece index p"
proof (induction "num_mobiles tb - piece" arbitrary: piece index p)
  case 0
  then show ?case
    by (subst (1 2) index_to_position_loop.simps) simp
next
  case (Suc k)
  then have "k = num_mobiles tb - Suc piece" by simp
  note ih = Suc.hyps(1)[OF this]
  show ?case
    by (subst (1 2) index_to_position_loop.simps) (simp add: Let_def ih)
qed

lemma position_to_index_loop_entries:
  "position_to_index_loop (tb\<lparr>entries := e\<rparr>) pos piece sc index
     = position_to_index_loop tb pos piece sc index"
proof (induction "num_mobiles tb - piece" arbitrary: piece sc index)
  case 0
  then show ?case
    by (subst (1 2) position_to_index_loop.simps) simp
next
  case (Suc k)
  then have "k = num_mobiles tb - Suc piece" by simp
  note ih = Suc.hyps(1)[OF this]
  show ?case
    by (subst (1 2) position_to_index_loop.simps) (simp add: ih)
qed

lemma count_direction_entries:
  "count_direction (tb\<lparr>entries := e\<rparr>) p piece dir count = count_direction tb p piece dir count"
  by (simp add: count_direction_def)

lemma count_directions_entries:
  "count_directions (tb\<lparr>entries := e\<rparr>) p piece dir count = count_directions tb p piece dir count"
proof (induction "number_of_movement_directions (mobile_piece_type tb ! piece) - dir"
    arbitrary: dir count)
  case 0
  then show ?case
    by (subst (1 2) count_directions.simps) simp
next
  case (Suc k)
  then have "k = number_of_movement_directions (mobile_piece_type tb ! piece) - Suc dir"
    by simp
  note ih = Suc.hyps(1)[OF this]
  show ?case
    by (subst (1 2) count_directions.simps)
       (simp add: count_direction_entries ih split: count_result.splits)
qed

lemma count_pieces_entries:
  "count_pieces (tb\<lparr>entries := e\<rparr>) p piece count = count_pieces tb p piece count"
proof (induction "num_mobiles tb - piece" arbitrary: piece count)
  case 0
  then show ?case
    by (subst (1 2) count_pieces.simps) simp
next
  case (Suc k)
  then have "k = num_mobiles tb - Suc piece" by simp
  note ih = Suc.hyps(1)[OF this]
  show ?case
    by (subst (1 2) count_pieces.simps)
       (simp add: count_directions_entries ih split: count_result.splits)
qed

lemma same_config_functions:
  assumes "same_config tb tb1"
  shows "index_to_position tb1 index = index_to_position tb index"
    and "position_to_index tb1 pos = position_to_index tb pos"
    and "count_pieces tb1 p piece count = count_pieces tb p piece count"
    and "max_index tb1 = max_index tb"
proof -
  have e: "tb1 = tb\<lparr>entries := entries tb1\<rparr>" using assms by (rule same_config_entries)
  show "index_to_position tb1 index = index_to_position tb index"
    by (subst e) (simp add: index_to_position_def index_to_position_loop_entries)
  show "position_to_index tb1 pos = position_to_index tb pos"
    by (subst e) (simp add: position_to_index_def position_to_index_loop_entries)
  show "count_pieces tb1 p piece count = count_pieces tb p piece count"
    by (subst e) (simp add: count_pieces_entries)
  show "max_index tb1 = max_index tb"
    using assms by (simp add: max_index_def same_config_def)
qed

lemma initialize_index_total:
  "\<exists>tb1. initialize_index tb index = Some tb1"
proof (cases "index_to_position tb index")
  case (Pair ok p)
  show ?thesis
  proof (cases ok)
    case False
    then show ?thesis using Pair by (simp add: initialize_index_def)
  next
    case True
    have "count_pieces tb p 0 0 \<noteq> Out_of_row"
    proof (cases "0 < num_mobiles tb")
      case False
      then have "count_pieces tb p 0 0 = Counted 0"
        by (subst count_pieces.simps) simp
      then show ?thesis by simp
    next
      case n: True
      have "board_vector p \<noteq> 0"
        using index_to_position_ok(2)[OF n, of index] Pair by simp
      then show ?thesis
        using count_pieces_cases[of p tb 0 0] by (auto simp: mated_def split: if_splits)
    qed
    then show ?thesis
      using Pair True by (simp add: initialize_index_def split: count_result.splits)
  qed
qed

lemma initialize_index_frame:
  assumes "initialize_index tb index = Some tb1"
  shows "same_config tb tb1" and "j \<noteq> index \<Longrightarrow> entries tb1 j = entries tb j"
proof -
  have w: "same_config tb (fst (black_wins t index 0 0)) \<and>
           (j \<noteq> index \<longrightarrow> entries (fst (black_wins t index 0 0)) j = entries tb j)"
    if "same_config tb t" "j \<noteq> index \<longrightarrow> entries t j = entries tb j" for t
    using that by (auto simp: black_wins_def set_entry_def same_config_def)
  have "same_config tb tb1 \<and> (j \<noteq> index \<longrightarrow> entries tb1 j = entries tb j)"
    using assms w[of "set_entry tb index
                  ((entries tb index)\<lparr>movecnt := PTM_WINS_PROPAGATION_NEEDED,
                                        mate_in_cnt := 0, stalemate_cnt := 0\<rparr>)"]
    by (auto simp: initialize_index_def initialize_index_as_illegal_def
        initialize_index_with_stalemate_def initialize_index_with_movecnt_def
        initialize_index_with_black_mated_def initialize_index_with_white_mated_def Let_def
        set_entry_def same_config_def
        split: prod.splits bool.splits count_result.splits if_splits)
  then show "same_config tb tb1" and "j \<noteq> index \<Longrightarrow> entries tb1 j = entries tb j"
    by simp_all
qed

lemma word_less_succ:
  assumes "(i::int32) < m"
  shows "(j < i + 1) = (j < i \<or> j = i)"
proof -
  have "unat (i + 1) = unat i + 1" using assms by (rule unat_succ_less)
  then show ?thesis
    by (auto simp: word_less_nat_alt word_unat_eq_iff)
qed

lemma initialize_tablebase_loop_result:
  "\<exists>tbf. initialize_tablebase_loop tb index mx = Some tbf
         \<and> same_config tb tbf
         \<and> (\<forall>j. j < index \<or> mx \<le> j \<longrightarrow> entries tbf j = entries tb j)
         \<and> (\<forall>j. index \<le> j \<and> j < mx \<longrightarrow>
               (\<exists>tbj tbk. same_config tb tbj \<and> initialize_index tbj j = Some tbk
                          \<and> entries tbf j = entries tbk j))"
proof (induction tb index mx rule: initialize_tablebase_loop.induct)
  case (1 tb index mx)
  show ?case
  proof (cases "index < mx")
    case False
    then have "initialize_tablebase_loop tb index mx = Some tb"
      by (subst initialize_tablebase_loop.simps) simp
    then show ?thesis using False by auto
  next
    case True
    obtain tb1 where tb1: "initialize_index tb index = Some tb1"
      using initialize_index_total by blast
    note fr = initialize_index_frame[OF tb1]
    have res: "initialize_tablebase_loop tb index mx = initialize_tablebase_loop tb1 (index + 1) mx"
      using True tb1 by (subst initialize_tablebase_loop.simps) simp
    from "1.IH"[OF True tb1] obtain tbf where
      f: "initialize_tablebase_loop tb1 (index + 1) mx = Some tbf"
      and c: "same_config tb1 tbf"
      and o: "\<forall>j. j < index + 1 \<or> mx \<le> j \<longrightarrow> entries tbf j = entries tb1 j"
      and w: "\<forall>j. index + 1 \<le> j \<and> j < mx \<longrightarrow>
               (\<exists>tbj tbk. same_config tb1 tbj \<and> initialize_index tbj j = Some tbk
                          \<and> entries tbf j = entries tbk j)"
      by blast
    note ls = word_less_succ[OF True]
    have c': "same_config tb tbf" using fr(1) c by (rule same_config_trans)
    have o': "entries tbf j = entries tb j" if "j < index \<or> mx \<le> j" for j
    proof -
      have "j \<noteq> index" using that True by auto
      moreover have "j < index + 1 \<or> mx \<le> j" using that ls by auto
      ultimately show ?thesis using o fr(2)[of j] by metis
    qed
    have w': "\<exists>tbj tbk. same_config tb tbj \<and> initialize_index tbj j = Some tbk
                          \<and> entries tbf j = entries tbk j" if jr: "index \<le> j \<and> j < mx" for j
    proof (cases "j = index")
      case True
      then have "entries tbf j = entries tb1 j" using o ls by simp
      then show ?thesis using True tb1 same_config_refl by blast
    next
      case False
      then have "index + 1 \<le> j" using jr ls[of j] by (auto simp: not_less[symmetric])
      then obtain tbj tbk where "same_config tb1 tbj" "initialize_index tbj j = Some tbk"
          "entries tbf j = entries tbk j"
        using w jr by blast
      then show ?thesis using same_config_trans[OF fr(1)] by blast
    qed
    show ?thesis
      unfolding res using f c' o' w' by blast
  qed
qed

lemma captures_king_same_config:
  "same_config tb tb1 \<Longrightarrow> captures_king tb1 p piece dir = captures_king tb p piece dir"
  by (simp add: captures_king_def same_config_def)

text \<open>
  C6: during initialization, for an index (below \<open>max_index\<close>, so that the loop reaches
  it) that decodes successfully, if for a piece of the side to move and one of its
  directions the counted capture's square is the enemy king's square, the entry is
  written with movecnt = PTM_WINS_PROPAGATION_NEEDED (252) and mate_in_cnt = 0, and the
  counting of the forward moves of that index does not run to its end (no count reaches
  the stalemate and movecnt branches).
\<close>

theorem king_capture_is_mate:
  assumes "index < max_index tb"
    and "index_to_position tb index = (True, p)"
    and "piece < num_mobiles tb"
    and "mobile_piece_color tb ! piece = side_to_move p"
    and "dir < number_of_movement_directions (mobile_piece_type tb ! piece)"
    and "captures_king tb p piece dir"
  shows "\<exists>tbf. initialize_tablebase tb = Some tbf
           \<and> movecnt (entries tbf index) = PTM_WINS_PROPAGATION_NEEDED
           \<and> mate_in_cnt (entries tbf index) = 0
           \<and> (\<forall>count. count_pieces tb p 0 0 \<noteq> Counted count)"
proof -
  obtain tbf where f: "initialize_tablebase tb = Some tbf"
    and w: "\<forall>j. 0 \<le> j \<and> j < max_index tb \<longrightarrow>
               (\<exists>tbj tbk. same_config tb tbj \<and> initialize_index tbj j = Some tbk
                          \<and> entries tbf j = entries tbk j)"
    using initialize_tablebase_loop_result[of tb 0 "max_index tb"]
    unfolding initialize_tablebase_def by blast
  obtain tbj tbk where c: "same_config tb tbj" and k: "initialize_index tbj index = Some tbk"
    and e: "entries tbf index = entries tbk index"
    using w assms(1) by auto
  have d: "index_to_position tbj index = (True, p)"
    using assms(2) same_config_functions(1)[OF c] by simp
  have cfg: "piece < num_mobiles tbj" "mobile_piece_color tbj ! piece = side_to_move p"
    "dir < number_of_movement_directions (mobile_piece_type tbj ! piece)"
    using assms(3,4,5) c by (simp_all add: same_config_def)
  have ck: "captures_king tbj p piece dir"
    using assms(6) captures_king_same_config[OF c] by simp
  obtain tb1 where "initialize_index tbj index = Some tb1"
    and "movecnt (entries tb1 index) = PTM_WINS_PROPAGATION_NEEDED"
    and "mate_in_cnt (entries tb1 index) = 0"
    and cnt: "\<forall>count. count_pieces tbj p 0 0 \<noteq> Counted count"
    using initialize_index_king_capture[OF d cfg ck] by blast
  then have "movecnt (entries tbf index) = PTM_WINS_PROPAGATION_NEEDED"
    and "mate_in_cnt (entries tbf index) = 0"
    using k e by simp_all
  moreover have "\<forall>count. count_pieces tb p 0 0 \<noteq> Counted count"
    using cnt same_config_functions(3)[OF c] by simp
  ultimately show ?thesis using f by blast
qed

text \<open>
  C6, for the K+Q vs K table at index 65408: white king a1, black king h8, white queen
  h1, white to move. The queen's scan up the h-file (piece 2, direction 2) stops on the
  black king.
\<close>

theorem king_capture_is_mate_witness:
  "fst (index_to_position create_tablebase 65408)
   \<and> captures_king create_tablebase (snd (index_to_position create_tablebase 65408)) 2 2
   \<and> (\<exists>tbf. initialize_tablebase create_tablebase = Some tbf
          \<and> movecnt (entries tbf 65408) = PTM_WINS_PROPAGATION_NEEDED
          \<and> mate_in_cnt (entries tbf 65408) = 0)"
proof -
  define p where "p = snd (index_to_position create_tablebase 65408)"
  have ok: "fst (index_to_position create_tablebase 65408)" by code_simp
  then have d: "index_to_position create_tablebase 65408 = (True, p)"
    unfolding p_def by (cases "index_to_position create_tablebase 65408") simp
  have ck: "captures_king create_tablebase p 2 2" unfolding p_def by code_simp
  have side: "mobile_piece_color create_tablebase ! 2 = side_to_move p"
    unfolding p_def by code_simp
  have i: "(65408::int32) < max_index create_tablebase"
    by (simp add: max_index_def create_tablebase_def)
  have n: "2 < num_mobiles create_tablebase"
    and dir: "2 < number_of_movement_directions (mobile_piece_type create_tablebase ! 2)"
    by (simp_all add: create_tablebase_def number_of_movement_directions_def)
  show ?thesis
    using king_capture_is_mate[OF i d n side dir ck] ok ck unfolding p_def by blast
qed

section \<open>Propagation\<close>

subsection \<open>Intra-table move propagation\<close>

text \<open>
  The body of the innermost loop of \<open>propagate_move_within_table\<close> for the position
  \<open>current_index\<close> from which a move leads to the parent position. The messages of the
  entry operations are not kept.
\<close>

definition propagate_to :: "tablebase \<Rightarrow> int32 \<Rightarrow> position \<Rightarrow> int32 \<Rightarrow> tablebase" where
  "propagate_to tb parent_index parent_position current_index =
     (if side_to_move parent_position = WHITE then
        if does_white_win tb parent_index then
          if get_stalemate_count tb parent_index < STALEMATE_COUNT
          then fst (add_one_to_white_wins tb current_index
                      (get_mate_in_count tb parent_index + 1)
                      (get_stalemate_count tb parent_index + 1))
          else tb
        else if does_black_win tb parent_index then
          if get_stalemate_count tb parent_index < STALEMATE_COUNT
          then fst (black_wins tb current_index
                      (get_mate_in_count tb parent_index + 1)
                      (get_stalemate_count tb parent_index + 1))
          else tb
        else tb
      else
        if does_black_win tb parent_index then
          if get_stalemate_count tb parent_index < STALEMATE_COUNT
          then fst (add_one_to_black_wins tb current_index
                      (get_mate_in_count tb parent_index + 1)
                      (get_stalemate_count tb parent_index + 1))
          else tb
        else if does_white_win tb parent_index then
          if get_stalemate_count tb parent_index < STALEMATE_COUNT
          then fst (white_wins tb current_index
                      (get_mate_in_count tb parent_index + 1)
                      (get_stalemate_count tb parent_index + 1))
          else tb
        else tb)"

text \<open>The index of the position in which \<open>piece\<close> stands on the square of the
  movement \<open>m\<close> and the other player is to move.\<close>

definition predecessor :: "tablebase \<Rightarrow> position \<Rightarrow> nat \<Rightarrow> movement \<Rightarrow> int32" where
  "predecessor tb parent_position piece m =
     position_to_index tb
       (parent_position
          \<lparr>side_to_move := (if side_to_move parent_position = WHITE then BLACK else WHITE),
           mobile_piece_position := (mobile_piece_position parent_position)[piece := square m]\<rparr>)"

text \<open>The loop along one direction, over the movements before the one where the scan
  stops.\<close>

fun propagate_passed ::
  "tablebase \<Rightarrow> int32 \<Rightarrow> position \<Rightarrow> nat \<Rightarrow> movement list \<Rightarrow> tablebase" where
  "propagate_passed tb parent_index parent_position piece [] = tb"
| "propagate_passed tb parent_index parent_position piece (m # ms) =
     propagate_passed
       (propagate_to tb parent_index parent_position (predecessor tb parent_position piece m))
       parent_index parent_position piece ms"

text \<open>
  An entry marked as propagated is never written again; \<open>evolves K tb tb1\<close> says that
  \<open>tb1\<close> is \<open>tb\<close> with other entries, where the entries marked as propagated and the
  entries at the indices in \<open>K\<close> are the same. It gives the termination of the loops
  below.
\<close>

definition is_done :: "fourbyte_entry \<Rightarrow> bool" where
  "is_done e = (movecnt e = PTM_WINS_PROPAGATION_DONE \<or> movecnt e = PNTM_WINS_PROPAGATION_DONE)"

definition evolves :: "int32 set \<Rightarrow> tablebase \<Rightarrow> tablebase \<Rightarrow> bool" where
  "evolves K tb tb1 =
     (same_config tb tb1
      \<and> (\<forall>j. is_done (entries tb j) \<longrightarrow> entries tb1 j = entries tb j)
      \<and> (\<forall>j\<in>K. entries tb1 j = entries tb j))"

lemma evolves_refl [simp]: "evolves K tb tb"
  by (simp add: evolves_def)

lemma evolves_trans: "evolves K a b \<Longrightarrow> evolves K b c \<Longrightarrow> evolves K a c"
  unfolding evolves_def using same_config_trans by (metis (no_types, lifting))

lemma evolves_same_config: "evolves K tb tb1 \<Longrightarrow> same_config tb tb1"
  by (simp add: evolves_def)

lemma evolves_entry_ops:
  assumes "index \<notin> K"
  shows "evolves K tb (fst (white_wins tb index m s))"
    and "evolves K tb (fst (black_wins tb index m s))"
    and "evolves K tb (fst (add_one_to_white_wins tb index m s))"
    and "evolves K tb (fst (add_one_to_black_wins tb index m s))"
    and "evolves K tb (fst (mark_propagated tb index))"
  using assms
  by (auto simp: evolves_def white_wins_def black_wins_def add_one_to_white_wins_def
      add_one_to_black_wins_def mark_propagated_def set_entry_def same_config_def is_done_def
      state_defs)

lemma evolves_propagate_to:
  "current_index \<notin> K \<Longrightarrow>
     evolves K tb (propagate_to tb parent_index parent_position current_index)"
  by (simp add: propagate_to_def evolves_entry_ops)

lemma predecessor_same_config:
  "same_config tb tb1 \<Longrightarrow> predecessor tb1 pp piece m = predecessor tb pp piece m"
  by (simp add: predecessor_def same_config_functions(2))

lemma evolves_propagate_passed:
  assumes "\<forall>m\<in>set ms. predecessor tb pp piece m \<notin> K"
  shows "evolves K tb (propagate_passed tb parent_index pp piece ms)"
  using assms
proof (induction ms arbitrary: tb)
  case Nil
  show ?case by simp
next
  case (Cons m ms)
  let ?tb1 = "propagate_to tb parent_index pp (predecessor tb pp piece m)"
  have e1: "evolves K tb ?tb1"
    using Cons.prems by (intro evolves_propagate_to) simp
  have "\<forall>m\<in>set ms. predecessor ?tb1 pp piece m \<notin> K"
    using Cons.prems predecessor_same_config[OF evolves_same_config[OF e1]] by simp
  then have "evolves K ?tb1 (propagate_passed ?tb1 parent_index pp piece ms)"
    by (rule Cons.IH)
  then show ?case using e1 evolves_trans by simp
qed

text \<open>The loop over the directions of one piece; \<open>None\<close> when a scan leaves its row.\<close>

function propagate_directions ::
  "tablebase \<Rightarrow> int32 \<Rightarrow> position \<Rightarrow> nat \<Rightarrow> nat \<Rightarrow> tablebase option" where
  "propagate_directions tb parent_index parent_position piece dir =
     (if dir < number_of_movement_directions (mobile_piece_type tb ! piece) then
        case ray_stop (board_vector parent_position)
               (movements (mobile_piece_type tb ! piece)
                  (nat (mobile_piece_position parent_position ! piece)) dir) of
          None \<Rightarrow> None
        | Some stop \<Rightarrow>
            propagate_directions
              (propagate_passed tb parent_index parent_position piece
                 (ray_passed (board_vector parent_position)
                    (movements (mobile_piece_type tb ! piece)
                       (nat (mobile_piece_position parent_position ! piece)) dir)))
              parent_index parent_position piece (dir + 1)
      else Some tb)"
  by pat_completeness auto
termination
proof (relation "measure (\<lambda>(tb, parent_index, parent_position, piece, dir).
          number_of_movement_directions (mobile_piece_type tb ! piece) - dir)", goal_cases)
  case 1
  show ?case by simp
next
  case (2 tb parent_index parent_position piece dir stop)
  let ?tb1 = "propagate_passed tb parent_index parent_position piece
                 (ray_passed (board_vector parent_position)
                    (movements (mobile_piece_type tb ! piece)
                       (nat (mobile_piece_position parent_position ! piece)) dir))"
  have "evolves {} tb ?tb1" by (rule evolves_propagate_passed) simp
  then have "mobile_piece_type ?tb1 = mobile_piece_type tb"
    by (simp add: evolves_def same_config_def)
  then show ?case using 2 by simp
qed

declare propagate_directions.simps [simp del]

text \<open>The indices of the positions from which a move leads to the parent position: the
  entries that the propagation from the parent updates.\<close>

definition predecessors :: "tablebase \<Rightarrow> position \<Rightarrow> int32 set" where
  "predecessors tb pp =
     {predecessor tb pp piece m | piece dir m.
        piece < num_mobiles tb
        \<and> mobile_piece_color tb ! piece \<noteq> side_to_move pp
        \<and> dir < number_of_movement_directions (mobile_piece_type tb ! piece)
        \<and> m \<in> set (ray_passed (board_vector pp)
                      (movements (mobile_piece_type tb ! piece)
                         (nat (mobile_piece_position pp ! piece)) dir))}"

lemma predecessors_same_config:
  "same_config tb tb1 \<Longrightarrow> predecessors tb1 pp = predecessors tb pp"
  unfolding predecessors_def
  by (simp add: predecessor_same_config) (simp add: same_config_def)

lemma evolves_propagate_directions:
  assumes "propagate_directions tb parent_index pp piece dir = Some tbf"
    and "piece < num_mobiles tb" and "mobile_piece_color tb ! piece \<noteq> side_to_move pp"
    and "predecessors tb pp \<inter> K = {}"
  shows "evolves K tb tbf"
  using assms
proof (induction tb parent_index pp piece dir rule: propagate_directions.induct)
  case (1 tb parent_index pp piece dir)
  let ?row = "movements (mobile_piece_type tb ! piece) (nat (mobile_piece_position pp ! piece)) dir"
  let ?tb1 = "propagate_passed tb parent_index pp piece (ray_passed (board_vector pp) ?row)"
  show ?case
  proof (cases "dir < number_of_movement_directions (mobile_piece_type tb ! piece)")
    case False
    then have "tbf = tb"
      using "1.prems"(1) by (subst (asm) propagate_directions.simps) simp
    then show ?thesis by simp
  next
    case True
    obtain stop where stop: "ray_stop (board_vector pp) ?row = Some stop"
      using "1.prems"(1) True
      by (subst (asm) propagate_directions.simps) (auto split: option.splits)
    have rec: "propagate_directions ?tb1 parent_index pp piece (dir + 1) = Some tbf"
      using "1.prems"(1) True stop by (subst (asm) propagate_directions.simps) simp
    have "\<forall>m\<in>set (ray_passed (board_vector pp) ?row). predecessor tb pp piece m \<notin> K"
      using "1.prems"(2,3,4) True unfolding predecessors_def by blast
    then have e1: "evolves K tb ?tb1" by (rule evolves_propagate_passed)
    note c1 = evolves_same_config[OF e1]
    have "piece < num_mobiles ?tb1" "mobile_piece_color ?tb1 ! piece \<noteq> side_to_move pp"
      using "1.prems"(2,3) c1 by (simp_all add: same_config_def)
    moreover have "predecessors ?tb1 pp \<inter> K = {}"
      using "1.prems"(4) predecessors_same_config[OF c1] by simp
    ultimately have "evolves K ?tb1 tbf"
      using "1.IH"[OF True stop rec] by simp
    then show ?thesis using e1 evolves_trans by blast
  qed
qed

text \<open>The loop over the pieces of the player who is not to move.\<close>

function propagate_pieces ::
  "tablebase \<Rightarrow> int32 \<Rightarrow> position \<Rightarrow> nat \<Rightarrow> tablebase option" where
  "propagate_pieces tb parent_index parent_position piece =
     (if piece < num_mobiles tb then
        if mobile_piece_color tb ! piece = side_to_move parent_position
        then propagate_pieces tb parent_index parent_position (piece + 1)
        else case propagate_directions tb parent_index parent_position piece 0 of
               None \<Rightarrow> None
             | Some tb1 \<Rightarrow> propagate_pieces tb1 parent_index parent_position (piece + 1)
      else Some tb)"
  by pat_completeness auto
termination
proof (relation "measure (\<lambda>(tb, parent_index, parent_position, piece). num_mobiles tb - piece)",
    goal_cases)
  case 1
  show ?case by simp
next
  case (2 tb parent_index parent_position piece)
  then show ?case by simp
next
  case (3 tb parent_index parent_position piece tb1)
  then have "evolves {} tb tb1"
    by (intro evolves_propagate_directions[of tb parent_index parent_position piece 0]) simp_all
  then have "num_mobiles tb1 = num_mobiles tb"
    by (simp add: evolves_def same_config_def)
  then show ?case using 3 by simp
qed

declare propagate_pieces.simps [simp del]

lemma evolves_propagate_pieces:
  assumes "propagate_pieces tb parent_index pp piece = Some tbf"
    and "predecessors tb pp \<inter> K = {}"
  shows "evolves K tb tbf"
  using assms
proof (induction tb parent_index pp piece rule: propagate_pieces.induct)
  case (1 tb parent_index pp piece)
  show ?case
  proof (cases "piece < num_mobiles tb")
    case False
    then have "tbf = tb"
      using "1.prems"(1) by (subst (asm) propagate_pieces.simps) simp
    then show ?thesis by simp
  next
    case True
    show ?thesis
    proof (cases "mobile_piece_color tb ! piece = side_to_move pp")
      case own: True
      have "propagate_pieces tb parent_index pp (piece + 1) = Some tbf"
        using "1.prems"(1) True own by (subst (asm) propagate_pieces.simps) simp
      then show ?thesis using "1.IH"(1)[OF True own] "1.prems"(2) by simp
    next
      case other: False
      obtain tb1 where d: "propagate_directions tb parent_index pp piece 0 = Some tb1"
        using "1.prems"(1) True other
        by (subst (asm) propagate_pieces.simps) (auto split: option.splits)
      have rec: "propagate_pieces tb1 parent_index pp (piece + 1) = Some tbf"
        using "1.prems"(1) True other d by (subst (asm) propagate_pieces.simps) simp
      have e1: "evolves K tb tb1"
        using d True other "1.prems"(2) by (rule evolves_propagate_directions)
      have "predecessors tb1 pp \<inter> K = {}"
        using "1.prems"(2) predecessors_same_config[OF evolves_same_config[OF e1]] by simp
      then have "evolves K tb1 tbf"
        using "1.IH"(2)[OF True other d rec] by simp
      then show ?thesis using e1 evolves_trans by blast
    qed
  qed
qed

text \<open>
  \<open>propagate_move_within_table\<close>: the entry of the parent is marked as propagated, the
  parent index is decoded (the result of \<open>index_to_position\<close> is not looked at), and
  every piece of the player who is not to move is moved back. The messages are not kept.
\<close>

definition propagate_move_within_table ::
  "tablebase \<Rightarrow> int32 \<Rightarrow> int \<Rightarrow> tablebase option" where
  "propagate_move_within_table tb parent_index mate_in_count =
     (let tb1 = fst (mark_propagated tb parent_index);
          parent_position = snd (index_to_position tb1 parent_index)
      in propagate_pieces tb1 parent_index parent_position 0)"

lemma evolves_propagate_move_within_table:
  assumes "propagate_move_within_table tb parent_index mate_in_count = Some tbf"
    and "parent_index \<notin> K"
    and "predecessors tb (snd (index_to_position tb parent_index)) \<inter> K = {}"
  shows "evolves K tb tbf"
proof -
  let ?tb1 = "fst (mark_propagated tb parent_index)"
  have e1: "evolves K tb ?tb1" using assms(2) by (rule evolves_entry_ops)
  note c1 = evolves_same_config[OF e1]
  have pp: "snd (index_to_position ?tb1 parent_index) = snd (index_to_position tb parent_index)"
    using same_config_functions(1)[OF c1] by simp
  have "propagate_pieces ?tb1 parent_index (snd (index_to_position tb parent_index)) 0 = Some tbf"
    using assms(1) pp by (simp add: propagate_move_within_table_def Let_def)
  moreover have "predecessors ?tb1 (snd (index_to_position tb parent_index)) \<inter> K = {}"
    using assms(3) predecessors_same_config[OF c1] by simp
  ultimately have "evolves K ?tb1 tbf" by (rule evolves_propagate_pieces)
  then show ?thesis using e1 evolves_trans by blast
qed

lemma propagate_marks_done:
  assumes "propagate_move_within_table tb parent_index mate_in_count = Some tbf"
    and "needs_propagation tb parent_index"
  shows "is_done (entries tbf parent_index)" and "\<not> is_done (entries tb parent_index)"
proof -
  let ?tb1 = "fst (mark_propagated tb parent_index)"
  have d1: "is_done (entries ?tb1 parent_index)"
    using assms(2)
    by (auto simp: needs_propagation_def mark_propagated_def set_entry_def is_done_def)
  have "propagate_pieces ?tb1 parent_index (snd (index_to_position ?tb1 parent_index)) 0 = Some tbf"
    using assms(1) by (simp add: propagate_move_within_table_def Let_def)
  then have "evolves {} ?tb1 tbf"
    by (rule evolves_propagate_pieces) simp
  then show "is_done (entries tbf parent_index)"
    using d1 by (simp add: evolves_def)
  show "\<not> is_done (entries tb parent_index)"
    using assms(2) by (auto simp: needs_propagation_def is_done_def state_defs)
qed

subsection \<open>The loop of main\<close>

text \<open>The number of entries below \<open>mx\<close> that are not yet marked as propagated.\<close>

definition not_done_below :: "int32 \<Rightarrow> tablebase \<Rightarrow> nat" where
  "not_done_below mx tb = card {j. j < mx \<and> \<not> is_done (entries tb j)}"

lemma evolves_not_done_le:
  assumes "evolves K tb tb1"
  shows "not_done_below mx tb1 \<le> not_done_below mx tb"
proof -
  have "{j. j < mx \<and> \<not> is_done (entries tb1 j)} \<subseteq> {j. j < mx \<and> \<not> is_done (entries tb j)}"
    using assms by (auto simp: evolves_def)
  then show ?thesis
    unfolding not_done_below_def by (intro card_mono) simp_all
qed

lemma evolves_not_done_less:
  assumes "evolves K tb tb1" and "index < mx"
    and "\<not> is_done (entries tb index)" and "is_done (entries tb1 index)"
  shows "not_done_below mx tb1 < not_done_below mx tb"
proof -
  have "{j. j < mx \<and> \<not> is_done (entries tb1 j)} \<subseteq> {j. j < mx \<and> \<not> is_done (entries tb j)}"
    using assms(1) by (auto simp: evolves_def)
  moreover have "index \<in> {j. j < mx \<and> \<not> is_done (entries tb j)}"
    and "index \<notin> {j. j < mx \<and> \<not> is_done (entries tb1 j)}"
    using assms(2,3,4) by simp_all
  ultimately have "{j. j < mx \<and> \<not> is_done (entries tb1 j)} \<subset> {j. j < mx \<and> \<not> is_done (entries tb j)}"
    by blast
  then show ?thesis
    unfolding not_done_below_def by (intro psubset_card_mono) simp_all
qed

text \<open>One pass of the loop of \<open>main\<close> over the indices: \<open>progress_made\<close> counts the
  positions that were propagated.\<close>

function propagation_pass ::
  "tablebase \<Rightarrow> int \<Rightarrow> int32 \<Rightarrow> int32 \<Rightarrow> int \<Rightarrow> (tablebase \<times> int) option" where
  "propagation_pass tb moves_to_win index max_index_static progress_made =
     (if index < max_index_static then
        if needs_propagation tb index \<and> get_mate_in_count tb index = moves_to_win
        then case propagate_move_within_table tb index moves_to_win of
               None \<Rightarrow> None
             | Some tb1 \<Rightarrow>
                 propagation_pass tb1 moves_to_win (index + 1) max_index_static
                   (progress_made + 1)
        else propagation_pass tb moves_to_win (index + 1) max_index_static progress_made
      else Some (tb, progress_made))"
  by pat_completeness auto
termination
proof (relation "measure (\<lambda>(tb, moves_to_win, index, max_index_static, progress_made).
          unat max_index_static - unat index)", goal_cases)
  case 1
  show ?case by simp
next
  case (2 tb moves_to_win index max_index_static progress_made tb1)
  then show ?case
    using unat_succ_less[of index max_index_static] by (simp add: word_less_nat_alt)
next
  case (3 tb moves_to_win index max_index_static progress_made)
  then show ?case
    using unat_succ_less[of index max_index_static] by (simp add: word_less_nat_alt)
qed

declare propagation_pass.simps [simp del]

text \<open>The entries that a pass may not touch, for the statement of what it leaves as it
  is: no index below \<open>mx\<close> is in \<open>K\<close>, and no position below \<open>mx\<close> has a predecessor
  in \<open>K\<close>.\<close>

definition untouched :: "int32 set \<Rightarrow> int32 \<Rightarrow> tablebase \<Rightarrow> bool" where
  "untouched K mx tb =
     (\<forall>parent_index. parent_index < mx \<longrightarrow>
        parent_index \<notin> K
        \<and> predecessors tb (snd (index_to_position tb parent_index)) \<inter> K = {})"

lemma untouched_empty [simp]: "untouched {} mx tb"
  by (simp add: untouched_def)

lemma untouched_same_config:
  "same_config tb tb1 \<Longrightarrow> untouched K mx tb1 = untouched K mx tb"
  unfolding untouched_def
  by (simp add: predecessors_same_config same_config_functions(1))

lemma propagation_pass_evolves:
  assumes "propagation_pass tb moves_to_win index mx progress_made = Some (tbf, progress)"
    and "untouched K mx tb"
  shows "evolves K tb tbf \<and> progress_made \<le> progress
       \<and> (progress_made < progress \<longrightarrow> not_done_below mx tbf < not_done_below mx tb)"
  using assms
proof (induction tb moves_to_win index mx progress_made rule: propagation_pass.induct)
  case (1 tb moves_to_win index mx progress_made)
  show ?case
  proof (cases "index < mx")
    case False
    then have "tbf = tb" "progress = progress_made"
      using "1.prems"(1) by (subst (asm) propagation_pass.simps, simp)+
    then show ?thesis by simp
  next
    case True
    show ?thesis
    proof (cases "needs_propagation tb index \<and> get_mate_in_count tb index = moves_to_win")
      case False
      have "propagation_pass tb moves_to_win (index + 1) mx progress_made = Some (tbf, progress)"
        using "1.prems"(1) True False by (subst (asm) propagation_pass.simps) auto
      then show ?thesis using "1.IH"(2)[OF True False] "1.prems"(2) by simp
    next
      case np: True
      obtain tb1 where p1: "propagate_move_within_table tb index moves_to_win = Some tb1"
        using "1.prems"(1) True np
        by (subst (asm) propagation_pass.simps) (auto split: option.splits)
      have rec: "propagation_pass tb1 moves_to_win (index + 1) mx (progress_made + 1)
                   = Some (tbf, progress)"
        using "1.prems"(1) True np p1 by (subst (asm) propagation_pass.simps) simp
      have e1: "evolves K tb tb1"
        using p1 "1.prems"(2) True unfolding untouched_def
        by (intro evolves_propagate_move_within_table[OF p1]) simp_all
      note c1 = evolves_same_config[OF e1]
      have u1: "untouched K mx tb1"
        using "1.prems"(2) untouched_same_config[OF c1] by simp
      have ih: "evolves K tb1 tbf" "progress_made + 1 \<le> progress"
        "not_done_below mx tbf \<le> not_done_below mx tb1"
        using "1.IH"(1)[OF True np p1 rec u1] evolves_not_done_le by blast+
      have "not_done_below mx tb1 < not_done_below mx tb"
        using e1 True propagate_marks_done[OF p1] np
        by (intro evolves_not_done_less[of K tb tb1 index]) simp_all
      then show ?thesis
        using ih e1 evolves_trans by (metis add_le_imp_le_left le_add_same_cancel1
            order.strict_trans1 zero_le_one order_trans)
    qed
  qed
qed

text \<open>Without futurebases \<open>max_moves_to_win\<close> is 1.\<close>

definition max_moves_to_win :: int where
  "max_moves_to_win = 1"

text \<open>
  The loop of \<open>main\<close>: a pass for every mate-in count, until a pass propagates nothing
  (and \<open>moves_to_win\<close> has reached \<open>max_moves_to_win\<close>). Every pass that propagates a
  position marks an entry below \<open>max_index_static\<close> as propagated for good, so the
  loop ends.
\<close>

function main_loop :: "tablebase \<Rightarrow> int \<Rightarrow> int \<Rightarrow> int32 \<Rightarrow> tablebase option" where
  "main_loop tb moves_to_win progress_made max_index_static =
     (if progress_made \<noteq> 0 \<or> moves_to_win < max_moves_to_win then
        case propagation_pass tb moves_to_win 0 max_index_static 0 of
          None \<Rightarrow> None
        | Some (tb1, progress_made1) \<Rightarrow>
            main_loop tb1 (moves_to_win + 1) progress_made1 max_index_static
      else Some tb)"
  by pat_completeness auto
termination
proof (relation "measure (\<lambda>(tb, moves_to_win, progress_made, max_index_static).
          2 * not_done_below max_index_static tb + (if progress_made \<noteq> 0 then 1 else 0)
          + nat (max_moves_to_win - moves_to_win))", goal_cases)
  case 1
  show ?case by simp
next
  case (2 tb moves_to_win progress_made max_index_static x2 tb1 progress_made1)
  then have pass: "propagation_pass tb moves_to_win 0 max_index_static 0
                     = Some (tb1, progress_made1)"
    by simp
  note ev = propagation_pass_evolves[OF pass untouched_empty]
  have le: "not_done_below max_index_static tb1 \<le> not_done_below max_index_static tb"
    using ev evolves_not_done_le by blast
  show ?case
  proof (cases "progress_made1 = 0")
    case True
    then show ?thesis using 2(1) le by (auto simp: max_moves_to_win_def)
  next
    case False
    then have "not_done_below max_index_static tb1 < not_done_below max_index_static tb"
      using ev by simp
    then show ?thesis using False by (auto simp: max_moves_to_win_def)
  qed
qed

declare main_loop.simps [simp del]

text \<open>
  \<open>main\<close>, up to the end of the search for forced mates; it returns the table.
  (\<open>init_movements\<close> is the function \<open>movements\<close> above, and \<open>verify_movements\<close> only
  writes messages.)
\<close>

definition main :: "tablebase option" where
  "main =
     (case initialize_tablebase create_tablebase of
        None \<Rightarrow> None
      | Some tb \<Rightarrow> main_loop tb 0 1 (max_index tb))"

subsection \<open>The squares of the movement table\<close>

text \<open>Every entry of a row is the end of the list, an entry that was never assigned, or a
  movement to a square of the board.\<close>

definition row_entry_ok :: "movement \<Rightarrow> bool" where
  "row_entry_ok m =
     (m = end_of_list \<or> m = zero_movement \<or> (\<exists>t. on_board t \<and> m = movement_to t))"

lemma movement_case_knight:
  "movement_case KNIGHTmove sq dir mvmt (cs, row) =
     (sq, if dir < 8 then jump (knight_test dir sq) (sq + knight_delta dir) row else row)"
proof (cases "dir < 8")
  case True
  then show ?thesis
    using dir_cases[OF True]
    by (elim disjE) (simp_all add: knight_test_def knight_delta_def add.commute)
next
  case False
  then show ?thesis by simp
qed

lemma row_update_ok:
  "\<forall>m\<in>set row. row_entry_ok m \<Longrightarrow> row_entry_ok x \<Longrightarrow> \<forall>m\<in>set (row[i := x]). row_entry_ok m"
  using set_update_subset_insert[of row i x] by auto

lemma row_entry_ok_simps [simp]:
  "row_entry_ok end_of_list" "row_entry_ok zero_movement"
  "on_board t \<Longrightarrow> row_entry_ok (movement_to t)"
  by (auto simp: row_entry_ok_def)

lemma slide_ok:
  assumes "on_board cs" and "possible \<Longrightarrow> on_board (cs + delta)"
    and "\<forall>m\<in>set row. row_entry_ok m"
  shows "on_board (fst (slide possible delta mvmt (cs, row)))
       \<and> (\<forall>m\<in>set (snd (slide possible delta mvmt (cs, row))). row_entry_ok m)"
proof (cases possible)
  case True
  have "\<forall>m\<in>set (row[mvmt := movement_to (cs + delta)]). row_entry_ok m"
    using assms(3) by (rule row_update_ok) (simp add: assms(2)[OF True])
  then show ?thesis using True assms(2) by (simp add: slide_def)
next
  case False
  have "\<forall>m\<in>set (row[mvmt := end_of_list]). row_entry_ok m"
    using assms(3) by (rule row_update_ok) simp
  then show ?thesis using False assms(1) by (simp add: slide_def)
qed

lemma jump_ok:
  assumes "possible \<Longrightarrow> on_board target" and "\<forall>m\<in>set row. row_entry_ok m"
  shows "\<forall>m\<in>set (jump possible target row). row_entry_ok m"
proof (cases possible)
  case True
  have "\<forall>m\<in>set (row[0 := movement_to target]). row_entry_ok m"
    using assms(2) by (rule row_update_ok) (simp add: assms(1)[OF True])
  then have "\<forall>m\<in>set (row[0 := movement_to target, 1 := end_of_list]). row_entry_ok m"
    by (rule row_update_ok) simp
  then show ?thesis using True by (simp only: jump_def if_True)
next
  case False
  have "\<forall>m\<in>set (row[0 := end_of_list]). row_entry_ok m"
    using assms(2) by (rule row_update_ok) simp
  then show ?thesis using False by (simp only: jump_def if_False)
qed

lemma movement_case_ok:
  assumes "on_board cs" and "on_board sq" and "\<forall>m\<in>set row. row_entry_ok m"
  shows "on_board (fst (movement_case d sq dir mvmt (cs, row)))
       \<and> (\<forall>m\<in>set (snd (movement_case d sq dir mvmt (cs, row))). row_entry_ok m)"
proof (cases "sliding d")
  case True
  show ?thesis
    unfolding movement_case_sliding[OF True]
    using assms(1) slide_step_on_board[OF assms(1)] assms(3) by (rule slide_ok)
next
  case False
  then consider "d = KNIGHTmove" | "d = PAWNmove" | "d = PAWN2move"
    by (cases d) (simp_all add: sliding_def)
  then show ?thesis
  proof cases
    case 1
    show ?thesis
    proof (cases "dir < 8")
      case True
      have "\<forall>m\<in>set (jump (knight_test dir sq) (sq + knight_delta dir) row). row_entry_ok m"
        using knight_step_on_board[OF True assms(2)] assms(3) by (rule jump_ok)
      then show ?thesis
        unfolding 1 movement_case_knight using True assms(2) by (simp only: if_True fst_conv snd_conv)
    next
      case False
      then show ?thesis
        unfolding 1 movement_case_knight using assms(2,3) by (simp only: if_False fst_conv snd_conv)
    qed
  next
    case 2
    then show ?thesis using assms by simp
  next
    case 3
    then show ?thesis using assms by simp
  qed
qed

lemma movement_loop_ok:
  assumes "on_board (fst st)" and "on_board sq" and "\<forall>m\<in>set (snd st). row_entry_ok m"
  shows "\<forall>m\<in>set (movement_loop piece sq dir mvmt st). row_entry_ok m"
  using assms
proof (induction piece sq dir mvmt st rule: movement_loop.induct)
  case (1 piece sq dir mvmt st)
  show ?case
  proof (cases "mvmt < maximum_movements_in_one_direction piece")
    case True
    let ?st = "movement_case (movementdir piece dir) sq dir mvmt st"
    have res: "movement_loop piece sq dir mvmt st = movement_loop piece sq dir (mvmt + 1) ?st"
      using True by (subst movement_loop.simps) simp
    have "on_board (fst (movement_case (movementdir piece dir) sq dir mvmt (fst st, snd st)))
       \<and> (\<forall>m\<in>set (snd (movement_case (movementdir piece dir) sq dir mvmt (fst st, snd st))).
             row_entry_ok m)"
      using "1.prems" by (rule movement_case_ok)
    then have mc: "on_board (fst ?st)" "\<forall>m\<in>set (snd ?st). row_entry_ok m"
      by simp_all
    have "\<forall>m\<in>set (movement_loop piece sq dir (mvmt + 1) ?st). row_entry_ok m"
      using True mc(1) "1.prems"(2) mc(2) by (rule "1.IH")
    then show ?thesis by (simp only: res)
  next
    case False
    then have "movement_loop piece sq dir mvmt st = (snd st)[mvmt := end_of_list]"
      by (subst movement_loop.simps) simp
    moreover have "\<forall>m\<in>set ((snd st)[mvmt := end_of_list]). row_entry_ok m"
      using "1.prems"(3) by (rule row_update_ok) simp
    ultimately show ?thesis by simp
  qed
qed

lemma movements_entries_ok:
  assumes "A < 64" and "m \<in> set (movements piece A dir)"
  shows "row_entry_ok m"
proof (cases "dir < number_of_movement_directions piece")
  case False
  then have "movements piece A dir = zero_row" by (simp only: movements_def if_False)
  then show ?thesis using assms(2) by (auto simp: zero_row_def)
next
  case True
  then have "movements piece A dir = movement_loop piece (int A) dir 0 (int A, zero_row)"
    by (simp only: movements_def if_True)
  moreover have "\<forall>m\<in>set (movement_loop piece (int A) dir 0 (int A, zero_row)). row_entry_ok m"
    using assms(1) by (intro movement_loop_ok) (auto simp: on_board_def zero_row_def)
  ultimately show ?thesis using assms(2) by simp
qed

lemma passed_square:
  assumes "A < 64" and "v \<noteq> 0" and "m \<in> set (ray_passed v (movements piece A dir))"
  shows "0 \<le> square m \<and> square m < 64
       \<and> (square m \<noteq> 0 \<longrightarrow> bitvector (nat (square m)) AND v = 0)"
proof -
  have in_row: "m \<in> set (movements piece A dir)" and pass: "vector m AND v = 0"
    using assms(3) set_takeWhileD unfolding ray_passed_def by fast+
  have "m \<noteq> end_of_list" using pass assms(2) by (auto simp: end_of_list_def)
  then consider "m = zero_movement" | t where "on_board t" "m = movement_to t"
    using movements_entries_ok[OF assms(1) in_row] unfolding row_entry_ok_def by blast
  then show ?thesis
  proof cases
    case 1
    then show ?thesis by (simp add: zero_movement_def)
  next
    case 2
    then show ?thesis using pass by (simp add: movement_to_def on_board_def)
  qed
qed

subsection \<open>The last entry\<close>

text \<open>
  With at least two pieces, no propagation writes the entry at \<open>max_index\<close>: the moved
  piece would have come from square 63, where another piece stands.
\<close>

lemma predecessors_not_max:
  assumes "2 \<le> num_mobiles tb" and "num_mobiles tb \<le> 5"
  shows "max_index tb \<notin> predecessors tb (snd (index_to_position tb parent_index))"
proof
  let ?pp = "snd (index_to_position tb parent_index)"
  let ?n = "num_mobiles tb"
  assume "max_index tb \<in> predecessors tb ?pp"
  then obtain piece dir m where piece: "piece < ?n"
    and m: "m \<in> set (ray_passed (board_vector ?pp)
                      (movements (mobile_piece_type tb ! piece)
                         (nat (mobile_piece_position ?pp ! piece)) dir))"
    and e: "predecessor tb ?pp piece m = max_index tb"
    unfolding predecessors_def by auto
  have ok: "position_ok ?pp" by (rule index_to_position_ok(1))
  have nz: "board_vector ?pp \<noteq> 0"
    using assms(1) by (intro index_to_position_ok(2)) simp
  have len: "length (mobile_piece_position ?pp) = 8"
    using ok by (simp add: position_ok_def MAX_MOBILES_def)
  have sq: "0 \<le> mobile_piece_position ?pp ! k \<and> mobile_piece_position ?pp ! k < 64
            \<and> (mobile_piece_position ?pp ! k \<noteq> 0 \<longrightarrow>
                 board_vector ?pp AND bitvector (nat (mobile_piece_position ?pp ! k)) \<noteq> 0)"
    if "k < ?n" for k
    using ok that assms(2) by (simp add: position_ok_def MAX_MOBILES_def)
  have A: "nat (mobile_piece_position ?pp ! piece) < 64"
    using sq[OF piece] by linarith
  note ps = passed_square[OF A nz m]
  let ?cp = "?pp\<lparr>side_to_move := (if side_to_move ?pp = WHITE then BLACK else WHITE),
                  mobile_piece_position := (mobile_piece_position ?pp)[piece := square m]\<rparr>"
  have cp: "mobile_piece_position ?cp ! k = (if k = piece then square m
                                             else mobile_piece_position ?pp ! k)"
    if "k < ?n" for k
    using that piece assms(2) len by (simp add: nth_list_update)
  have range: "\<forall>k<?n. 0 \<le> mobile_piece_position ?cp ! k \<and> mobile_piece_position ?cp ! k < 64"
    using cp sq ps by simp
  have idx: "position_to_index tb ?cp = max_index tb"
    using e by (simp add: predecessor_def)
  have all63: "mobile_piece_position ?cp ! k = 63" if "k < ?n" for k
    using assms(2) range idx that by (rule position_to_index_max)
  have "square m = 63" using all63[OF piece] cp[OF piece] by simp
  then have free: "bitvector 63 AND board_vector ?pp = 0" using ps by simp
  define k0 :: nat where "k0 = (if piece = 0 then 1 else 0)"
  have k0: "k0 < ?n" "k0 \<noteq> piece" using assms(1) by (simp_all add: k0_def)
  have "mobile_piece_position ?pp ! k0 = 63"
    using all63[OF k0(1)] cp[OF k0(1)] k0(2) by simp
  then have "board_vector ?pp AND bitvector 63 \<noteq> 0"
    using sq[OF k0(1)] by simp
  then show False using free by (simp add: and.commute)
qed

lemma untouched_max:
  assumes "2 \<le> num_mobiles tb" and "num_mobiles tb \<le> 5"
  shows "untouched {max_index tb} (max_index tb) tb"
  unfolding untouched_def using predecessors_not_max[OF assms] by auto

lemma propagate_directions_total:
  assumes "board_vector pp \<noteq> 0"
  shows "\<exists>tbf. propagate_directions tb parent_index pp piece dir = Some tbf"
  using assms
proof (induction tb parent_index pp piece dir rule: propagate_directions.induct)
  case (1 tb parent_index pp piece dir)
  show ?case
  proof (cases "dir < number_of_movement_directions (mobile_piece_type tb ! piece)")
    case False
    then show ?thesis by (subst propagate_directions.simps) simp
  next
    case True
    obtain stop where stop: "ray_stop (board_vector pp)
        (movements (mobile_piece_type tb ! piece) (nat (mobile_piece_position pp ! piece)) dir)
        = Some stop"
      using ray_stop_in_row[OF True "1.prems"] by blast
    show ?thesis
      using True stop "1.IH"[OF True stop "1.prems"]
      by (subst propagate_directions.simps) simp
  qed
qed

lemma propagate_pieces_total:
  assumes "board_vector pp \<noteq> 0"
  shows "\<exists>tbf. propagate_pieces tb parent_index pp piece = Some tbf"
  using assms
proof (induction tb parent_index pp piece rule: propagate_pieces.induct)
  case (1 tb parent_index pp piece)
  show ?case
  proof (cases "piece < num_mobiles tb")
    case False
    then show ?thesis by (subst propagate_pieces.simps) simp
  next
    case True
    show ?thesis
    proof (cases "mobile_piece_color tb ! piece = side_to_move pp")
      case own: True
      show ?thesis
        using True own "1.IH"(1)[OF True own "1.prems"]
        by (subst propagate_pieces.simps) simp
    next
      case other: False
      obtain tb1 where d: "propagate_directions tb parent_index pp piece 0 = Some tb1"
        using propagate_directions_total[OF "1.prems"] by blast
      show ?thesis
        using True other d "1.IH"(2)[OF True other d "1.prems"]
        by (subst propagate_pieces.simps) simp
    qed
  qed
qed

lemma propagate_move_within_table_total:
  "\<exists>tbf. propagate_move_within_table tb parent_index mate_in_count = Some tbf"
proof (cases "0 < num_mobiles tb")
  case True
  let ?tb1 = "fst (mark_propagated tb parent_index)"
  have "same_config tb ?tb1"
    using evolves_entry_ops(5)[of parent_index "{}" tb] by (simp add: evolves_def)
  then have "0 < num_mobiles ?tb1" using True by (simp add: same_config_def)
  then have "board_vector (snd (index_to_position ?tb1 parent_index)) \<noteq> 0"
    by (rule index_to_position_ok(2))
  then show ?thesis
    unfolding propagate_move_within_table_def Let_def by (rule propagate_pieces_total)
next
  case False
  let ?tb1 = "fst (mark_propagated tb parent_index)"
  have "same_config tb ?tb1"
    using evolves_entry_ops(5)[of parent_index "{}" tb] by (simp add: evolves_def)
  then have "\<not> 0 < num_mobiles ?tb1" using False by (simp add: same_config_def)
  then show ?thesis
    unfolding propagate_move_within_table_def Let_def
    by (subst propagate_pieces.simps) simp
qed

lemma propagation_pass_total:
  "\<exists>r. propagation_pass tb moves_to_win index mx progress_made = Some r"
proof (induction tb moves_to_win index mx progress_made rule: propagation_pass.induct)
  case (1 tb moves_to_win index mx progress_made)
  show ?case
  proof (cases "index < mx")
    case False
    then show ?thesis by (subst propagation_pass.simps) simp
  next
    case True
    show ?thesis
    proof (cases "needs_propagation tb index \<and> get_mate_in_count tb index = moves_to_win")
      case False
      show ?thesis
        using True False "1.IH"(2)[OF True False]
        by (subst propagation_pass.simps) auto
    next
      case np: True
      obtain tb1 where p1: "propagate_move_within_table tb index moves_to_win = Some tb1"
        using propagate_move_within_table_total by blast
      show ?thesis
        using True np p1 "1.IH"(1)[OF True np p1]
        by (subst propagation_pass.simps) simp
    qed
  qed
qed

lemma main_loop_result:
  assumes "untouched K mx tb"
  shows "\<exists>tbf. main_loop tb moves_to_win progress_made mx = Some tbf \<and> evolves K tb tbf"
  using assms
proof (induction tb moves_to_win progress_made mx rule: main_loop.induct)
  case (1 tb moves_to_win progress_made mx)
  show ?case
  proof (cases "progress_made \<noteq> 0 \<or> moves_to_win < max_moves_to_win")
    case False
    then have "main_loop tb moves_to_win progress_made mx = Some tb"
      by (subst main_loop.simps) simp
    then show ?thesis by simp
  next
    case True
    obtain tb1 progress1 where
      pass: "propagation_pass tb moves_to_win 0 mx 0 = Some (tb1, progress1)"
      using propagation_pass_total[of tb moves_to_win 0 mx 0] by auto
    have res: "main_loop tb moves_to_win progress_made mx
        = main_loop tb1 (moves_to_win + 1) progress1 mx"
      using True pass by (subst main_loop.simps) simp
    have e1: "evolves K tb tb1"
      using propagation_pass_evolves[OF pass "1.prems"] by simp
    have "untouched K mx tb1"
      using "1.prems" untouched_same_config[OF evolves_same_config[OF e1]] by simp
    then obtain tbf where "main_loop tb1 (moves_to_win + 1) progress1 mx = Some tbf"
      and "evolves K tb1 tbf"
      using "1.IH"[OF True pass refl] by blast
    then show ?thesis
      unfolding res using e1 evolves_trans by blast
  qed
qed

lemma build_last_entry:
  assumes "2 \<le> num_mobiles tb" and "num_mobiles tb \<le> 5"
  shows "\<exists>tb1 tbf. initialize_tablebase tb = Some tb1
           \<and> main_loop tb1 0 1 (max_index tb1) = Some tbf
           \<and> (\<forall>j. max_index tb \<le> j \<longrightarrow> entries tb1 j = entries tb j)
           \<and> entries tbf (max_index tb) = entries tb (max_index tb)"
proof -
  obtain tb1 where i: "initialize_tablebase tb = Some tb1" and c: "same_config tb tb1"
    and o: "\<forall>j. j < 0 \<or> max_index tb \<le> j \<longrightarrow> entries tb1 j = entries tb j"
    using initialize_tablebase_loop_result[of tb 0 "max_index tb"]
    unfolding initialize_tablebase_def by blast
  have mx: "max_index tb1 = max_index tb" using c by (rule same_config_functions(4))
  have n: "2 \<le> num_mobiles tb1" "num_mobiles tb1 \<le> 5"
    using assms c by (simp_all add: same_config_def)
  obtain tbf where l: "main_loop tb1 0 1 (max_index tb1) = Some tbf"
    and e: "evolves {max_index tb1} tb1 tbf"
    using main_loop_result[OF untouched_max[OF n], of 0 1] by blast
  have "entries tbf (max_index tb) = entries tb1 (max_index tb)"
    using e mx by (simp add: evolves_def)
  also have "\<dots> = entries tb (max_index tb)" using o by simp
  finally show ?thesis using i l o by blast
qed

lemma main_last_entry:
  "\<exists>tb1 tbf. initialize_tablebase create_tablebase = Some tb1 \<and> main = Some tbf
     \<and> entries tb1 (max_index create_tablebase) = zero_entry
     \<and> entries tbf (max_index create_tablebase) = zero_entry"
proof -
  have n: "2 \<le> num_mobiles create_tablebase" "num_mobiles create_tablebase \<le> 5"
    by (simp_all add: create_tablebase_def)
  obtain tb1 tbf where i: "initialize_tablebase create_tablebase = Some tb1"
    and l: "main_loop tb1 0 1 (max_index tb1) = Some tbf"
    and o: "\<forall>j. max_index create_tablebase \<le> j \<longrightarrow> entries tb1 j = entries create_tablebase j"
    and e: "entries tbf (max_index create_tablebase)
              = entries create_tablebase (max_index create_tablebase)"
    using build_last_entry[OF n] by blast
  have z: "entries create_tablebase j = zero_entry" for j
    by (simp add: create_tablebase_def)
  have "main = Some tbf" using i l by (simp add: main_def)
  then show ?thesis using i o e z by auto
qed

text \<open>
  C10: \<open>initialize_tablebase\<close> leaves every entry at an index from \<open>max_index\<close> on as it
  was. For a table of two to four pieces (at least two, so that no propagation reaches
  the entry; at most four, so that \<open>max_index\<close> fits an \<open>int\<close>) \<open>max_index\<close> is
  \<open>2 * 64 ^ num_mobiles - 1\<close>, the index of the position with black to move and every
  piece on h8 (square 63); the initialization and the loop of \<open>main\<close> both return, and
  the entry at \<open>max_index\<close> is after each of them what it was before. In the build of
  \<open>main\<close> it is the zero entry of \<open>calloc\<close> after the initialization, where it passes the
  test of the first pass of the loop (it needs propagation, with a mate-in count of 0),
  and still the zero entry at the end, not marked as propagated: the loop never looked at
  it. The movecnt 0 of the zero entry is \<open>PNTM_WINS_PROPAGATION_NEEDED\<close>.
\<close>

theorem initialization_skips_last_index:
  "(\<forall>tb tb1 j. initialize_tablebase tb = Some tb1 \<and> max_index tb \<le> j \<longrightarrow>
        entries tb1 j = entries tb j)
   \<and> (\<forall>tb. 2 \<le> num_mobiles tb \<and> num_mobiles tb \<le> 4 \<longrightarrow>
        uint (max_index tb) = 2 * 64 ^ num_mobiles tb - 1
        \<and> position_to_index tb
             (zero_position\<lparr>side_to_move := BLACK,
                             mobile_piece_position := replicate MAX_MOBILES 63\<rparr>)
            = max_index tb
        \<and> (\<exists>tb1 tbf. initialize_tablebase tb = Some tb1
               \<and> main_loop tb1 0 1 (max_index tb1) = Some tbf
               \<and> entries tb1 (max_index tb) = entries tb (max_index tb)
               \<and> entries tbf (max_index tb) = entries tb (max_index tb)))
   \<and> (\<exists>tb1 tbf. initialize_tablebase create_tablebase = Some tb1 \<and> main = Some tbf
          \<and> entries tb1 (max_index create_tablebase) = zero_entry
          \<and> needs_propagation tb1 (max_index create_tablebase)
          \<and> get_mate_in_count tb1 (max_index create_tablebase) = 0
          \<and> entries tbf (max_index create_tablebase) = zero_entry)
   \<and> movecnt zero_entry = PNTM_WINS_PROPAGATION_NEEDED"
proof (intro conjI allI impI)
  fix tb tb1 j
  assume a: "initialize_tablebase tb = Some tb1 \<and> max_index tb \<le> j"
  then show "entries tb1 j = entries tb j"
    using initialize_tablebase_loop_result[of tb 0 "max_index tb"]
    unfolding initialize_tablebase_def by auto
next
  fix tb :: tablebase
  assume n: "2 \<le> num_mobiles tb \<and> num_mobiles tb \<le> 4"
  then have n5: "2 \<le> num_mobiles tb" "num_mobiles tb \<le> 5" by simp_all
  show "uint (max_index tb) = 2 * 64 ^ num_mobiles tb - 1"
    using n5(2) by (rule max_index_uint)
  show "position_to_index tb
             (zero_position\<lparr>side_to_move := BLACK,
                             mobile_piece_position := replicate MAX_MOBILES 63\<rparr>)
            = max_index tb"
    using n5(2) by (rule position_to_index_all_63)
  show "\<exists>tb1 tbf. initialize_tablebase tb = Some tb1
               \<and> main_loop tb1 0 1 (max_index tb1) = Some tbf
               \<and> entries tb1 (max_index tb) = entries tb (max_index tb)
               \<and> entries tbf (max_index tb) = entries tb (max_index tb)"
    using build_last_entry[OF n5] by blast
next
  obtain tb1 tbf where "initialize_tablebase create_tablebase = Some tb1" "main = Some tbf"
    and z: "entries tb1 (max_index create_tablebase) = zero_entry"
      "entries tbf (max_index create_tablebase) = zero_entry"
    using main_last_entry by blast
  moreover have "needs_propagation tb1 (max_index create_tablebase)"
    "get_mate_in_count tb1 (max_index create_tablebase) = 0"
    using z(1)
    by (simp_all add: needs_propagation_def get_mate_in_count_def zero_entry_def state_defs)
  ultimately show "\<exists>tb1 tbf. initialize_tablebase create_tablebase = Some tb1 \<and> main = Some tbf
          \<and> entries tb1 (max_index create_tablebase) = zero_entry
          \<and> needs_propagation tb1 (max_index create_tablebase)
          \<and> get_mate_in_count tb1 (max_index create_tablebase) = 0
          \<and> entries tbf (max_index create_tablebase) = zero_entry"
    by blast
next
  show "movecnt zero_entry = PNTM_WINS_PROPAGATION_NEEDED"
    by (simp add: zero_entry_def PNTM_WINS_PROPAGATION_NEEDED_def)
qed

text \<open>C10, for the K+Q vs K table of \<open>main\<close>: \<open>max_index\<close> is 524287, the index of the
  position with black to move and the three pieces on h8; the entries at 524287 and at
  524288 are the zero entry after the initialization, and the entry at 524287 is the zero
  entry at the end of \<open>main\<close>.\<close>

theorem initialization_skips_last_index_witness:
  "2 \<le> num_mobiles create_tablebase \<and> num_mobiles create_tablebase \<le> 4
   \<and> uint (max_index create_tablebase) = 524287
   \<and> position_to_index create_tablebase
        (zero_position\<lparr>side_to_move := BLACK,
                        mobile_piece_position := replicate MAX_MOBILES 63\<rparr>) = 524287
   \<and> (\<exists>tb1 tbf. initialize_tablebase create_tablebase = Some tb1 \<and> main = Some tbf
          \<and> entries tb1 524287 = zero_entry \<and> entries tb1 524288 = zero_entry
          \<and> entries tbf 524287 = zero_entry)"
proof -
  note t = initialization_skips_last_index
  have n: "2 \<le> num_mobiles create_tablebase \<and> num_mobiles create_tablebase \<le> 4"
    by (simp add: create_tablebase_def)
  have v: "max_index create_tablebase = 524287" "uint (max_index create_tablebase) = 524287"
    by (simp_all add: max_index_def create_tablebase_def)
  have p: "position_to_index create_tablebase
        (zero_position\<lparr>side_to_move := BLACK,
                        mobile_piece_position := replicate MAX_MOBILES 63\<rparr>) = 524287"
    using t n v(1) by metis
  obtain tb1 tbf where i: "initialize_tablebase create_tablebase = Some tb1"
    and m: "main = Some tbf"
    and z: "entries tb1 524287 = zero_entry" "entries tbf 524287 = zero_entry"
    using t v(1) by metis
  have "max_index create_tablebase \<le> 524288" by (simp add: v(1))
  then have "entries tb1 524288 = entries create_tablebase 524288"
    using t i by blast
  then have "entries tb1 524288 = zero_entry" by (simp add: create_tablebase_def)
  then show ?thesis using n v(2) p i m z by blast
qed

text \<open>
  C2 fails on the build of \<open>main\<close>: the build returns, and in the table it returns the
  entry at index \<open>max_index = 2 * 64 ^ num_mobiles - 1\<close> (524287) has movecnt
  \<open>PNTM_WINS_PROPAGATION_NEEDED\<close>: it still needs propagation. The loops of
  \<open>initialize_tablebase\<close> and of \<open>main\<close> run over \<open>index < max_index\<close>.
\<close>

theorem build_leaves_last_entry_pending:
  "\<exists>tbf. main = Some tbf
     \<and> uint (max_index create_tablebase) = 2 * 64 ^ num_mobiles create_tablebase - 1
     \<and> movecnt (entries tbf (max_index create_tablebase)) = PNTM_WINS_PROPAGATION_NEEDED
     \<and> needs_propagation tbf (max_index create_tablebase)"
proof -
  obtain tbf where m: "main = Some tbf"
    and z: "entries tbf (max_index create_tablebase) = zero_entry"
    using main_last_entry by blast
  have "num_mobiles create_tablebase \<le> 5" by (simp add: create_tablebase_def)
  then have "uint (max_index create_tablebase) = 2 * 64 ^ num_mobiles create_tablebase - 1"
    by (rule max_index_uint)
  moreover have "movecnt (entries tbf (max_index create_tablebase)) = PNTM_WINS_PROPAGATION_NEEDED"
    "needs_propagation tbf (max_index create_tablebase)"
    using z by (simp_all add: needs_propagation_def zero_entry_def state_defs)
  ultimately show ?thesis using m by blast
qed

end
